theory Spec2Isabelle
  imports
    Main
    "HOL-Library.Word"
    "HOL-Library.Char_ord"
    "HOL-Library.List_Lexorder"
    "HOL-Library.Sublist"
begin

unbundle bit_operations_syntax

chapter \<open>The client code as functions\<close>

section \<open>JavaScript values and \<open>JSON.stringify\<close>\<close>

text \<open>
  A JavaScript value as the client handles it. A string is a list of code units
  (\<^typ>\<open>char\<close>, so code units below 256). A number is held as the text that
  \<open>Number::toString\<close> gives for it (\<open>''NaN''\<close>, \<open>''Infinity''\<close> and
  \<open>''-Infinity''\<close> for the three non-finite ones), which is all that
  \<open>JSON.stringify\<close> reads of a number. An object is the list of its own enumerable
  string-keyed properties in enumeration order.
\<close>

datatype jsval =
    JUndefined
  | JNull
  | JBool bool
  | JNum string
  | JStr string
  | JArr "jsval list"
  | JObj "(string \<times> jsval) list"

definition hex_digit :: "nat \<Rightarrow> char" where
  "hex_digit d = ''0123456789abcdef'' ! (d mod 16)"

text \<open>\<open>QuoteJSONString\<close>: the escapes of ECMA-262, one code unit at a time.\<close>

fun quote_char :: "char \<Rightarrow> string" where
  "quote_char c =
     (if c = CHR 0x22 then [CHR 0x5C, CHR 0x22]
      else if c = CHR 0x5C then [CHR 0x5C, CHR 0x5C]
      else if c = CHR 0x08 then [CHR 0x5C, CHR ''b'']
      else if c = CHR 0x0C then [CHR 0x5C, CHR ''f'']
      else if c = CHR 0x0A then [CHR 0x5C, CHR ''n'']
      else if c = CHR 0x0D then [CHR 0x5C, CHR ''r'']
      else if c = CHR 0x09 then [CHR 0x5C, CHR ''t'']
      else if of_char c < (32::nat)
        then [CHR 0x5C, CHR ''u'', CHR ''0'', CHR ''0'',
              hex_digit (of_char c div 16), hex_digit (of_char c mod 16)]
      else [c])"

definition QuoteJSONString :: "string \<Rightarrow> string" where
  "QuoteJSONString s = [CHR 0x22] @ concat (map quote_char s) @ [CHR 0x22]"

fun join :: "string \<Rightarrow> string list \<Rightarrow> string" where
  "join sep [] = []"
| "join sep [x] = x"
| "join sep (x # y # ys) = x @ sep @ join sep (y # ys)"

text \<open>
  \<open>SerializeJSONProperty\<close> is \<open>None\<close> where JavaScript yields \<open>undefined\<close>: such a
  property is left out of an object and written \<open>null\<close> in an array. Properties are
  written in the object's own enumeration order.
\<close>

fun SerializeJSONProperty :: "jsval \<Rightarrow> string option"
  and SerializeJSONArray :: "jsval list \<Rightarrow> string list"
  and SerializeJSONObject :: "(string \<times> jsval) list \<Rightarrow> string list" where
  "SerializeJSONProperty JUndefined = None"
| "SerializeJSONProperty JNull = Some ''null''"
| "SerializeJSONProperty (JBool b) = Some (if b then ''true'' else ''false'')"
| "SerializeJSONProperty (JNum t) =
     Some (if t = ''NaN'' \<or> t = ''Infinity'' \<or> t = ''-Infinity'' then ''null'' else t)"
| "SerializeJSONProperty (JStr s) = Some (QuoteJSONString s)"
| "SerializeJSONProperty (JArr vs) = Some (''['' @ join '','' (SerializeJSONArray vs) @ '']'')"
| "SerializeJSONProperty (JObj ps) = Some (''{'' @ join '','' (SerializeJSONObject ps) @ ''}'')"
| "SerializeJSONArray [] = []"
| "SerializeJSONArray (v # vs) =
     (case SerializeJSONProperty v of None \<Rightarrow> ''null'' | Some t \<Rightarrow> t) # SerializeJSONArray vs"
| "SerializeJSONObject [] = []"
| "SerializeJSONObject (p # ps) =
     (case SerializeJSONProperty (snd p) of
        None \<Rightarrow> SerializeJSONObject ps
      | Some t \<Rightarrow> (QuoteJSONString (fst p) @ '':'' @ t) # SerializeJSONObject ps)"

definition JSON_stringify :: "jsval \<Rightarrow> string option" where
  "JSON_stringify v = SerializeJSONProperty v"


section \<open>Constants (\<open>utils/constants\<close>)\<close>

definition ACCESS_TOKEN :: string where "ACCESS_TOKEN = ''access_token''"
definition REFRESH_TOKEN :: string where "REFRESH_TOKEN = ''refresh_token''"
definition OFFLINE_QUEUE :: string where "OFFLINE_QUEUE = ''offline_queue''"

definition MAX_QUEUE_SIZE :: nat where "MAX_QUEUE_SIZE = 50"

section \<open>Secure storage (\<open>utils/storage\<close>)\<close>

text \<open>
  The encrypted store is a map from keys to strings. \<open>JSON.parse\<close> is the runtime's:
  the model takes it as a parameter \<open>parse\<close>, \<open>None\<close> where it throws a
  \<open>SyntaxError\<close>. The \<open>try\<close>/\<open>catch\<close> of \<open>getObject\<close> turns that throw into
  \<open>null\<close>, here \<open>None\<close>.
\<close>

type_synonym storage = "string \<rightharpoonup> string"

definition secureStorage_set :: "storage \<Rightarrow> string \<Rightarrow> string \<Rightarrow> storage" where
  "secureStorage_set st key v = st(key \<mapsto> v)"

definition secureStorage_get :: "storage \<Rightarrow> string \<Rightarrow> string option" where
  "secureStorage_get st key = st key"

definition secureStorage_remove :: "storage \<Rightarrow> string \<Rightarrow> storage" where
  "secureStorage_remove st key = st(key := None)"

definition secureStorage_setObject :: "storage \<Rightarrow> string \<Rightarrow> jsval \<Rightarrow> storage" where
  "secureStorage_setObject st key v =
     (case JSON_stringify v of Some text \<Rightarrow> st(key \<mapsto> text) | None \<Rightarrow> st)"


section \<open>The offline queue store (\<open>store/offlineStore\<close>)\<close>

record OfflineRecord =
  record_id :: string
  payload :: jsval
  createdAt :: string
  synced :: bool
  syncError :: "string option"

record OfflineState =
  queue :: "OfflineRecord list"
  isSyncing :: bool
  lastSyncAt :: "string option"

definition initial_state :: OfflineState where
  "initial_state = \<lparr>queue = [], isSyncing = False, lastSyncAt = None\<rparr>"

text \<open>
  The JavaScript object of a record, as \<open>setObject\<close> serialises it: the literal of
  \<open>addToQueue\<close> has the keys \<open>id\<close>, \<open>payload\<close>, \<open>createdAt\<close>, \<open>synced\<close> in this
  order, and the spread in \<open>syncAll\<close> adds \<open>syncError\<close> after them.
\<close>

definition record_js :: "OfflineRecord \<Rightarrow> jsval" where
  "record_js r =
     JObj ([(''id'', JStr (record_id r)), (''payload'', payload r),
            (''createdAt'', JStr (createdAt r)), (''synced'', JBool (synced r))]
           @ (case syncError r of None \<Rightarrow> [] | Some e \<Rightarrow> [(''syncError'', JStr e)]))"

definition queue_js :: "OfflineRecord list \<Rightarrow> jsval" where
  "queue_js q = JArr (map record_js q)"

definition persist_queue :: "storage \<Rightarrow> OfflineRecord list \<Rightarrow> storage" where
  "persist_queue st q = secureStorage_setObject st OFFLINE_QUEUE (queue_js q)"

text \<open>
  \<open>addToQueue\<close>. The clock and the random source are inputs: \<open>now\<close> is the text of
  \<open>Date.now()\<close>, \<open>rnd\<close> the text of \<open>Math.random().toString(36).slice(2, 9)\<close> and
  \<open>ts\<close> the text of \<open>new Date().toISOString()\<close>. The result is the returned boolean
  with the store and the storage after the call.
\<close>

definition new_record :: "string \<Rightarrow> string \<Rightarrow> string \<Rightarrow> jsval \<Rightarrow> OfflineRecord" where
  "new_record now rnd ts p =
     \<lparr>record_id = ''offline_'' @ now @ ''_'' @ rnd, payload = p, createdAt = ts,
      synced = False, syncError = None\<rparr>"

definition addToQueue ::
  "string \<Rightarrow> string \<Rightarrow> string \<Rightarrow> jsval \<Rightarrow> OfflineState \<times> storage
     \<Rightarrow> bool \<times> OfflineState \<times> storage" where
  "addToQueue now rnd ts p = (\<lambda>(s, st).
     if length (queue s) \<ge> MAX_QUEUE_SIZE then (False, s, st)
     else let updated = queue s @ [new_record now rnd ts p]
          in (True, s\<lparr>queue := updated\<rparr>, persist_queue st updated))"

text \<open>
  \<open>syncAll\<close>. One delivery \<open>attendanceService.syncOfflineRecord(record.payload)\<close>
  either resolves or throws; when it throws, \<open>err.response?.data?.detail\<close> may be
  there or not. The backend is a state machine \<open>net\<close> of any state type: it takes
  its state and the payload and gives the outcome and its next state, so the order of
  the deliveries shows in the state it ends in.
\<close>

datatype sync_outcome = Delivered | Rejected "string option"

fun findIndex :: "('a \<Rightarrow> bool) \<Rightarrow> 'a list \<Rightarrow> nat option" where
  "findIndex P [] = None"
| "findIndex P (x # xs) = (if P x then Some 0 else map_option Suc (findIndex P xs))"

definition error_text :: "string option \<Rightarrow> string" where
  "error_text detail =
     (case detail of None \<Rightarrow> ''Sync failed''
      | Some d \<Rightarrow> if d = [] then ''Sync failed'' else d)"

text \<open>The body of the \<open>for\<close> loop after the awaited delivery has settled.\<close>

fun sync_record ::
  "sync_outcome \<Rightarrow> OfflineRecord \<Rightarrow> OfflineRecord list \<times> nat \<times> nat
     \<Rightarrow> OfflineRecord list \<times> nat \<times> nat" where
  "sync_record Delivered r (updated, n_synced, n_failed) =
     ((case findIndex (\<lambda>x. record_id x = record_id r) updated of
         None \<Rightarrow> updated
       | Some idx \<Rightarrow> updated[idx := (updated ! idx)\<lparr>synced := True\<rparr>]),
      n_synced + 1, n_failed)"
| "sync_record (Rejected detail) r (updated, n_synced, n_failed) =
     ((case findIndex (\<lambda>x. record_id x = record_id r) updated of
         None \<Rightarrow> updated
       | Some idx \<Rightarrow> updated[idx := (updated ! idx)\<lparr>syncError := Some (error_text detail)\<rparr>]),
      n_synced, n_failed + 1)"

fun sync_loop ::
  "('n \<Rightarrow> jsval \<Rightarrow> sync_outcome \<times> 'n) \<Rightarrow> OfflineRecord list
     \<Rightarrow> (OfflineRecord list \<times> nat \<times> nat) \<times> 'n \<Rightarrow> (OfflineRecord list \<times> nat \<times> nat) \<times> 'n" where
  "sync_loop net [] (acc, n) = (acc, n)"
| "sync_loop net (r # pending) (acc, n) =
     (case net n (payload r) of (out, n') \<Rightarrow> sync_loop net pending (sync_record out r acc, n'))"

definition syncAll ::
  "('n \<Rightarrow> jsval \<Rightarrow> sync_outcome \<times> 'n) \<Rightarrow> string \<Rightarrow> OfflineState \<times> storage \<times> 'n
     \<Rightarrow> (nat \<times> nat) \<times> OfflineState \<times> storage \<times> 'n" where
  "syncAll net ts = (\<lambda>(s, st, n).
     let pending = filter (\<lambda>r. \<not> synced r) (queue s) in
     if length pending = 0 then ((0, 0), s, st, n)
     else case sync_loop net pending ((queue s, 0, 0), n) of
       ((updated, n_synced, n_failed), n') \<Rightarrow>
         ((n_synced, n_failed),
          s\<lparr>queue := updated, isSyncing := False, lastSyncAt := Some ts\<rparr>,
          persist_queue st updated, n'))"


definition clearSynced :: "OfflineState \<times> storage \<Rightarrow> OfflineState \<times> storage" where
  "clearSynced = (\<lambda>(s, st).
     let remaining = filter (\<lambda>r. \<not> synced r) (queue s)
     in (s\<lparr>queue := remaining\<rparr>, persist_queue st remaining))"

section \<open>Sample data\<close>

definition sample_payload :: jsval where
  "sample_payload =
     JObj [(''shift_id'', JStr ''s1''), (''latitude'', JNum ''24.7136''),
           (''longitude'', JNum ''46.6753''), (''is_mock_location'', JBool False)]"

definition sample_record :: OfflineRecord where
  "sample_record = new_record ''1700000000000'' ''k3x9q2a'' ''2023-11-14T22:13:20.000Z'' sample_payload"

section \<open>What a drain is meant to do, and sequences of queue operations\<close>

text \<open>
  The drain as the design words it, to compare \<open>syncAll\<close> with: walk the queue from
  the oldest entry; an entry already synced stays as it is; every other entry takes the
  next delivery outcome, and is marked synced on success or gets the error text on
  failure, after which the walk goes on with the next entry.
\<close>

fun apply_outcome :: "sync_outcome \<Rightarrow> OfflineRecord \<Rightarrow> OfflineRecord" where
  "apply_outcome Delivered r = r\<lparr>synced := True\<rparr>"
| "apply_outcome (Rejected detail) r = r\<lparr>syncError := Some (error_text detail)\<rparr>"

fun drain_spec :: "OfflineRecord list \<Rightarrow> sync_outcome list \<Rightarrow> OfflineRecord list" where
  "drain_spec [] outs = []"
| "drain_spec (r # q) outs =
     (if synced r then r # drain_spec q outs
      else case outs of [] \<Rightarrow> r # q | out # outs' \<Rightarrow> apply_outcome out r # drain_spec q outs')"

text \<open>
  The deliveries of one pass: the backend is handed the payloads of the given records
  one after the other, whatever the earlier outcomes were.
\<close>

fun deliveries ::
  "('n \<Rightarrow> jsval \<Rightarrow> sync_outcome \<times> 'n) \<Rightarrow> 'n \<Rightarrow> OfflineRecord list \<Rightarrow> sync_outcome list \<times> 'n" where
  "deliveries net n [] = ([], n)"
| "deliveries net n (r # rs) =
     (case net n (payload r) of (out, n') \<Rightarrow>
        case deliveries net n' rs of (outs, n'') \<Rightarrow> (out # outs, n''))"

fun is_delivered :: "sync_outcome \<Rightarrow> bool" where
  "is_delivered Delivered = True"
| "is_delivered (Rejected detail) = False"

text \<open>
  Queue operations run one after the other, each to completion, on the store, the
  storage and the backend.
\<close>

datatype queue_op =
    AddToQueue string string string jsval
  | SyncAll string
  | ClearSynced

fun apply_op ::
  "('n \<Rightarrow> jsval \<Rightarrow> sync_outcome \<times> 'n) \<Rightarrow> OfflineState \<times> storage \<times> 'n \<Rightarrow> queue_op
     \<Rightarrow> OfflineState \<times> storage \<times> 'n" where
  "apply_op net (s, st, n) (AddToQueue now rnd ts p) =
     (case addToQueue now rnd ts p (s, st) of (ok, s', st') \<Rightarrow> (s', st', n))"
| "apply_op net (s, st, n) (SyncAll ts) = snd (syncAll net ts (s, st, n))"
| "apply_op net (s, st, n) ClearSynced =
     (case clearSynced (s, st) of (s', st') \<Rightarrow> (s', st', n))"

definition run_ops ::
  "('n \<Rightarrow> jsval \<Rightarrow> sync_outcome \<times> 'n) \<Rightarrow> OfflineState \<times> storage \<times> 'n \<Rightarrow> queue_op list
     \<Rightarrow> OfflineState \<times> storage \<times> 'n" where
  "run_ops net = foldl (apply_op net)"

text \<open>The records that the \<open>addToQueue\<close> calls of a sequence build, in call order.\<close>

fun enqueued :: "queue_op list \<Rightarrow> OfflineRecord list" where
  "enqueued [] = []"
| "enqueued (AddToQueue now rnd ts p # ops) = new_record now rnd ts p # enqueued ops"
| "enqueued (SyncAll ts # ops) = enqueued ops"
| "enqueued (ClearSynced # ops) = enqueued ops"

text \<open>
  What stays of an event for its lifetime, and \<open>later r' r\<close>: \<open>r'\<close> is a later
  state of the event \<open>r\<close> whose \<open>synced\<close> flag has not gone back.
\<close>

definition event_key :: "OfflineRecord \<Rightarrow> string \<times> jsval \<times> string" where
  "event_key r = (record_id r, payload r, createdAt r)"

definition later :: "OfflineRecord \<Rightarrow> OfflineRecord \<Rightarrow> bool" where
  "later r' r = (event_key r' = event_key r \<and> (synced r \<le> synced r'))"

text \<open>The updates of a whole pass on one entry, for the proofs about the loop.\<close>

fun g_all :: "(OfflineRecord \<times> sync_outcome) list \<Rightarrow> OfflineRecord \<Rightarrow> OfflineRecord" where
  "g_all [] x = x"
| "g_all (ro # ps) x =
     g_all ps (if record_id x = record_id (fst ro) then apply_outcome (snd ro) x else x)"

section \<open>Sample queue and backend\<close>

definition sample_r1 :: OfflineRecord where
  "sample_r1 = \<lparr>record_id = ''offline_1700000000000_a1'', payload = JObj [(''shift_id'', JStr ''s1'')],
     createdAt = ''2023-11-14T22:13:20.000Z'', synced = False, syncError = None\<rparr>"

definition sample_r2 :: OfflineRecord where
  "sample_r2 = \<lparr>record_id = ''offline_1700000000500_b2'', payload = JObj [(''shift_id'', JStr ''s2'')],
     createdAt = ''2023-11-14T22:13:20.500Z'', synced = True, syncError = None\<rparr>"

definition sample_r3 :: OfflineRecord where
  "sample_r3 = \<lparr>record_id = ''offline_1700000000900_c3'', payload = JObj [(''shift_id'', JStr ''s3'')],
     createdAt = ''2023-11-14T22:13:20.900Z'', synced = False, syncError = None\<rparr>"

definition sample_state :: OfflineState where
  "sample_state = \<lparr>queue = [sample_r1, sample_r2, sample_r3], isSyncing = False, lastSyncAt = None\<rparr>"

text \<open>
  A backend that keeps the payloads it was handed, in order, and rejects the shift
  \<open>s1\<close> with a detail message.
\<close>

definition sample_net :: "jsval list \<Rightarrow> jsval \<Rightarrow> sync_outcome \<times> jsval list" where
  "sample_net received p =
     (if p = JObj [(''shift_id'', JStr ''s1'')] then Rejected (Some ''Outside geofence'') else Delivered,
      received @ [p])"


section \<open>The integrity hash (\<open>utils/helpers\<close>)\<close>

text \<open>
  Property assignment \<open>acc[key] = v\<close> on an ordinary object, with the enumeration
  order of ECMA-262: array-index keys come first, in ascending numeric order, then the
  other string keys in the order of their creation. An assignment to an existing key
  keeps its place. \<open>__proto__\<close> is the accessor of \<open>Object.prototype\<close>: assigning
  to it creates no own property.
\<close>

definition is_digit :: "char \<Rightarrow> bool" where
  "is_digit c = (CHR ''0'' \<le> c \<and> c \<le> CHR ''9'')"

definition digits_value :: "string \<Rightarrow> int" where
  "digits_value s = foldl (\<lambda>n c. 10 * n + (of_char c - 48)) 0 s"

definition is_array_index :: "string \<Rightarrow> bool" where
  "is_array_index s =
     (s \<noteq> [] \<and> list_all is_digit s \<and> (s = ''0'' \<or> take 1 s \<noteq> ''0'')
      \<and> digits_value s < 4294967295)"

fun insert_index :: "string \<Rightarrow> jsval \<Rightarrow> (string \<times> jsval) list \<Rightarrow> (string \<times> jsval) list" where
  "insert_index k v [] = [(k, v)]"
| "insert_index k v (p # ps) =
     (if is_array_index (fst p) \<and> digits_value (fst p) < digits_value k
      then p # insert_index k v ps else (k, v) # p # ps)"

definition js_set :: "(string \<times> jsval) list \<Rightarrow> string \<Rightarrow> jsval \<Rightarrow> (string \<times> jsval) list" where
  "js_set obj k v =
     (if k = ''__proto__'' then obj
      else if k \<in> set (map fst obj) then map (\<lambda>p. if fst p = k then (k, v) else p) obj
      else if is_array_index k then insert_index k v obj
      else obj @ [(k, v)])"

definition js_get :: "(string \<times> jsval) list \<Rightarrow> string \<Rightarrow> jsval" where
  "js_get obj k = (case map_of obj k of None \<Rightarrow> JUndefined | Some v \<Rightarrow> v)"

definition Object_keys :: "(string \<times> jsval) list \<Rightarrow> string list" where
  "Object_keys obj = map fst obj"

text \<open>
  \<open>Math.abs(hash).toString(16).padStart(16, '0')\<close>, and the loop
  \<open>hash = (hash << 5) - hash + char; hash |= 0\<close> on 32-bit integers.
\<close>

function toString16 :: "int \<Rightarrow> string" where
  "toString16 n =
     (if n < 16 then [hex_digit (nat n)]
      else toString16 (n div 16) @ [hex_digit (nat (n mod 16))])"
  by pat_completeness auto
termination
  by (relation "measure nat") auto

definition padStart :: "nat \<Rightarrow> char \<Rightarrow> string \<Rightarrow> string" where
  "padStart n c s = replicate (n - length s) c @ s"

definition hash_step :: "32 word \<Rightarrow> char \<Rightarrow> 32 word" where
  "hash_step hash c = push_bit 5 hash - hash + of_nat (of_char c)"

definition stringify_object :: "(string \<times> jsval) list \<Rightarrow> string" where
  "stringify_object ps = ''{'' @ join '','' (SerializeJSONObject ps) @ ''}''"

definition ordered_keys :: "(string \<times> jsval) list \<Rightarrow> (string \<times> jsval) list" where
  "ordered_keys obj =
     foldl (\<lambda>acc key. js_set acc key (js_get obj key)) [] (sort (Object_keys obj))"

definition generateIntegrityHash :: "(string \<times> jsval) list \<Rightarrow> string" where
  "generateIntegrityHash obj =
     (let ordered = ordered_keys obj;
          data = stringify_object ordered;
          hash = foldl hash_step 0 data
      in padStart 16 (CHR ''0'') (toString16 \<bar>sint hash\<bar>))"

text \<open>
  Two payloads with the same keys and values, whose \<open>location\<close> objects were built
  in different key orders; and two flat payloads that differ in key order only.
\<close>

definition location_a :: "(string \<times> jsval) list" where
  "location_a = [(''latitude'', JNum ''24.7''), (''longitude'', JNum ''46.6'')]"

definition location_b :: "(string \<times> jsval) list" where
  "location_b = [(''longitude'', JNum ''46.6''), (''latitude'', JNum ''24.7'')]"

definition nested_a :: "(string \<times> jsval) list" where
  "nested_a = [(''shift_id'', JStr ''s1''), (''location'', JObj location_a)]"

definition nested_b :: "(string \<times> jsval) list" where
  "nested_b = [(''shift_id'', JStr ''s1''), (''location'', JObj location_b)]"

definition flat_a :: "(string \<times> jsval) list" where
  "flat_a = [(''shift_id'', JStr ''s1''), (''latitude'', JNum ''24.7''), (''device_id'', JStr ''d9'')]"

definition flat_b :: "(string \<times> jsval) list" where
  "flat_b = [(''device_id'', JStr ''d9''), (''shift_id'', JStr ''s1''), (''latitude'', JNum ''24.7'')]"

section \<open>The request gateway (\<open>services/api\<close>)\<close>

text \<open>
  The response interceptor of the mobile client, with the module-level
  \<open>isRefreshing\<close> flag and \<open>failedQueue\<close>. The runtime is one event loop: code runs
  from one \<open>await\<close> to the next without interruption, and what happens between two
  awaits of one handler is whatever other events the loop delivers. The model is a step
  function: an event is a failed response reaching the interceptor, or the settling of
  the promise that a handler awaits; the step runs the handler up to its next
  \<open>await\<close> or its end.

  A request is named by a number. Its \<open>_retry\<close> flag is membership in \<open>retry\<close>. A
  rejected promise carries an error: an Axios error with a response (its status), an
  Axios error without one, or a plain \<open>Error\<close> with its message.
\<close>

type_synonym call = nat

datatype api_error =
    HttpError nat
  | NetworkError
  | PlainError string

fun response_status :: "api_error \<Rightarrow> nat option" where
  "response_status (HttpError status) = Some status"
| "response_status NetworkError = None"
| "response_status (PlainError msg) = None"

text \<open>Where a running refresh handler is suspended.\<close>

datatype handler_pc =
    AwaitGetRefresh
  | AwaitExchange
  | AwaitSetAccess string
  | AwaitRemoveAccess api_error
  | AwaitRemoveRefresh api_error

text \<open>
  What the gateway does to the outside: it posts a refresh exchange, it replays a
  request with a bearer token, or it rejects the promise of a request with an error.
\<close>

datatype gw_action =
    RefreshPosted call string
  | Replayed call string
  | RejectedWith call api_error

record gw_state =
  isRefreshing :: bool
  failedQueue :: "call list"
  retry :: "call set"
  handlers :: "(call \<times> handler_pc) list"
  tokens :: storage
  trace :: "gw_action list"

definition gw_init :: "storage \<Rightarrow> gw_state" where
  "gw_init st = \<lparr>isRefreshing = False, failedQueue = [], retry = {}, handlers = [],
                 tokens = st, trace = []\<rparr>"

datatype gw_event =
    ResponseFailed call api_error
  | RefreshTokenRead call
  | ExchangeSettled call "api_error + string"
  | AccessStored call
  | AccessRemoved call
  | RefreshRemoved call

text \<open>
  \<open>processQueue(error, token)\<close>: every parked promise is rejected with the error, or
  resolved with the token, which replays its request with that token; then the list is
  emptied.
\<close>

definition processQueue :: "api_error option \<Rightarrow> string option \<Rightarrow> gw_state \<Rightarrow> gw_state" where
  "processQueue error token s =
     s\<lparr>trace := trace s @
          map (\<lambda>c. case error of
                 Some e \<Rightarrow> RejectedWith c e
               | None \<Rightarrow> Replayed c (case token of Some t \<Rightarrow> t | None \<Rightarrow> ''null''))
              (failedQueue s),
       failedQueue := []\<rparr>"

definition set_pc :: "call \<Rightarrow> handler_pc \<Rightarrow> (call \<times> handler_pc) list \<Rightarrow> (call \<times> handler_pc) list" where
  "set_pc c pc hs = map (\<lambda>h. if fst h = c then (c, pc) else h) hs"

definition drop_handler :: "call \<Rightarrow> (call \<times> handler_pc) list \<Rightarrow> (call \<times> handler_pc) list" where
  "drop_handler c hs = filter (\<lambda>h. fst h \<noteq> c) hs"

text \<open>
  The \<open>catch\<close> block up to its first \<open>await\<close>: \<open>processQueue(refreshError, null)\<close>,
  then the removal of the access token is awaited.
\<close>

definition catch_refresh :: "call \<Rightarrow> api_error \<Rightarrow> gw_state \<Rightarrow> gw_state" where
  "catch_refresh c e s =
     (let s' = processQueue (Some e) None s
      in s'\<lparr>handlers := set_pc c (AwaitRemoveAccess e) (handlers s')\<rparr>)"

fun gw_step :: "gw_state \<Rightarrow> gw_event \<Rightarrow> gw_state" where
  "gw_step s (ResponseFailed c err) =
     (if response_status err \<noteq> Some 401 \<or> c \<in> retry s
        then s\<lparr>trace := trace s @ [RejectedWith c err]\<rparr>
      else if isRefreshing s
        then s\<lparr>failedQueue := failedQueue s @ [c]\<rparr>
      else s\<lparr>retry := insert c (retry s), isRefreshing := True,
             handlers := handlers s @ [(c, AwaitGetRefresh)]\<rparr>)"
| "gw_step s (RefreshTokenRead c) =
     (case map_of (handlers s) c of
        Some AwaitGetRefresh \<Rightarrow>
          (case secureStorage_get (tokens s) REFRESH_TOKEN of
             None \<Rightarrow> catch_refresh c (PlainError ''No refresh token'') s
           | Some refreshToken \<Rightarrow>
               if refreshToken = [] then catch_refresh c (PlainError ''No refresh token'') s
               else s\<lparr>trace := trace s @ [RefreshPosted c refreshToken],
                      handlers := set_pc c AwaitExchange (handlers s)\<rparr>)
      | _ \<Rightarrow> s)"
| "gw_step s (ExchangeSettled c res) =
     (case map_of (handlers s) c of
        Some AwaitExchange \<Rightarrow>
          (case res of
             Inl e \<Rightarrow> catch_refresh c e s
           | Inr access \<Rightarrow> s\<lparr>handlers := set_pc c (AwaitSetAccess access) (handlers s)\<rparr>)
      | _ \<Rightarrow> s)"
| "gw_step s (AccessStored c) =
     (case map_of (handlers s) c of
        Some (AwaitSetAccess access) \<Rightarrow>
          (let s1 = s\<lparr>tokens := secureStorage_set (tokens s) ACCESS_TOKEN access\<rparr>;
               s2 = processQueue None (Some access) s1
           in s2\<lparr>trace := trace s2 @ [Replayed c access], isRefreshing := False,
                  handlers := drop_handler c (handlers s2)\<rparr>)
      | _ \<Rightarrow> s)"
| "gw_step s (AccessRemoved c) =
     (case map_of (handlers s) c of
        Some (AwaitRemoveAccess e) \<Rightarrow>
          s\<lparr>tokens := secureStorage_remove (tokens s) ACCESS_TOKEN,
            handlers := set_pc c (AwaitRemoveRefresh e) (handlers s)\<rparr>
      | _ \<Rightarrow> s)"
| "gw_step s (RefreshRemoved c) =
     (case map_of (handlers s) c of
        Some (AwaitRemoveRefresh e) \<Rightarrow>
          s\<lparr>tokens := secureStorage_remove (tokens s) REFRESH_TOKEN,
            trace := trace s @ [RejectedWith c e], isRefreshing := False,
            handlers := drop_handler c (handlers s)\<rparr>
      | _ \<Rightarrow> s)"

definition gw_run :: "gw_state \<Rightarrow> gw_event list \<Rightarrow> gw_state" where
  "gw_run = foldl gw_step"

text \<open>The refresh exchanges that have been posted and have not settled.\<close>

definition outstanding :: "gw_state \<Rightarrow> nat" where
  "outstanding s = length (filter (\<lambda>h. snd h = AwaitExchange) (handlers s))"

definition unauthorized :: api_error where
  "unauthorized = HttpError 401"

definition sample_tokens :: storage where
  "sample_tokens = [ACCESS_TOKEN \<mapsto> ''access-0'', REFRESH_TOKEN \<mapsto> ''refresh-0'']"

text \<open>
  Requests that fail with 401 one after the other, and what the failure path of a
  refresh has to leave behind: both tokens gone from the storage, every waiting
  request and then the originating one rejected with the refresh error and nothing
  replayed, no handler left, and the error not a plain network error.
\<close>

definition park :: "call list \<Rightarrow> gw_event list" where
  "park ws = map (\<lambda>w. ResponseFailed w unauthorized) ws"

definition session_invalidated ::
  "gw_state \<Rightarrow> gw_state \<Rightarrow> call \<Rightarrow> call list \<Rightarrow> api_error \<Rightarrow> gw_action list \<Rightarrow> bool" where
  "session_invalidated s s' c ws err posted =
     (secureStorage_get (tokens s') ACCESS_TOKEN = None
      \<and> secureStorage_get (tokens s') REFRESH_TOKEN = None
      \<and> trace s' = trace s @ posted @ map (\<lambda>w. RejectedWith w err) (failedQueue s @ ws)
                     @ [RejectedWith c err]
      \<and> \<not> isRefreshing s' \<and> handlers s' = [] \<and> failedQueue s' = []
      \<and> err \<noteq> NetworkError)"

text \<open>
  Two runs from a store that holds both tokens. In the first the refresh exchange of
  request 1 is rejected, and request 2 fails with 401 while the handler awaits the
  removal of the access token. In the second request 2 fails with 401 while the refresh
  of request 1 is under way, is replayed with the new token, and fails with 401 again.
\<close>

definition stranded_run :: gw_state where
  "stranded_run = gw_run (gw_init sample_tokens)
     [ResponseFailed 1 unauthorized, RefreshTokenRead 1, ExchangeSettled 1 (Inl unauthorized),
      ResponseFailed 2 unauthorized, AccessRemoved 1, RefreshRemoved 1]"

text \<open>
  A run from a storage that holds an access token and no refresh token: request 1
  starts the refresh, the handler finds no refresh token, and request 2 fails with 401
  while the handler awaits the removal of the access token.
\<close>

definition access_only :: storage where
  "access_only = [ACCESS_TOKEN \<mapsto> ''access-0'']"

definition absent_token_run :: gw_state where
  "absent_token_run = gw_run (gw_init access_only)
     [ResponseFailed 1 unauthorized, RefreshTokenRead 1, ResponseFailed 2 unauthorized,
      AccessRemoved 1, RefreshRemoved 1]"

definition twice_run :: gw_state where
  "twice_run = gw_run (gw_init sample_tokens)
     [ResponseFailed 1 unauthorized, ResponseFailed 2 unauthorized, RefreshTokenRead 1,
      ExchangeSettled 1 (Inr ''access-1''), AccessStored 1,
      ResponseFailed 2 unauthorized, RefreshTokenRead 2,
      ExchangeSettled 2 (Inr ''access-2''), AccessStored 2]"

text \<open>At most one refresh handler, and the flag is set exactly while it runs.\<close>

definition single_flight :: "gw_state \<Rightarrow> bool" where
  "single_flight s = (length (handlers s) \<le> 1 \<and> (isRefreshing s = (handlers s \<noteq> [])))"

section \<open>Drains on the event loop (\<open>hooks/useOfflineSync\<close> and \<open>syncAll\<close>)\<close>

text \<open>
  \<open>syncAll\<close> awaits every delivery, so other code runs while a drain is under way.
  Here a drain is a running call with the locals of \<open>syncAll\<close>: the records still to deliver
  (the delivery of the first one is the awaited one), and \<open>updated\<close> with the two
  counters. An event is a trigger of the hook (the \<open>NetInfo\<close> listener, the interval
  timer, a call of \<open>syncNow\<close>) or the settling of what a drain awaits. The hook's
  \<open>pendingCount\<close> is recomputed, and the listener and the timer set up again,
  whenever the queue changes; the model reads it off the current queue.
\<close>

datatype drain_stage = Delivering | Persisting | Finished

record drain =
  d_pending :: "OfflineRecord list"
  d_locals :: "OfflineRecord list \<times> nat \<times> nat"
  d_stage :: drain_stage

record sync_state =
  store :: OfflineState
  disk :: storage
  isOnline :: bool
  drains :: "drain list"
  sent :: "jsval list"

datatype sync_event =
    NetInfoChanged bool
  | TimerFired
  | SyncNowCalled
  | DeliverySettled nat sync_outcome string
  | QueuePersisted nat

definition sync_init :: "OfflineState \<Rightarrow> storage \<Rightarrow> sync_state" where
  "sync_init s st = \<lparr>store = s, disk = st, isOnline = True, drains = [], sent = []\<rparr>"

definition pendingCount :: "sync_state \<Rightarrow> nat" where
  "pendingCount s = length (filter (\<lambda>r. \<not> synced r) (queue (store s)))"

text \<open>
  \<open>syncNow\<close> up to the first \<open>await\<close> of \<open>syncAll\<close>: the snapshot, the early return
  when nothing is pending, \<open>set({isSyncing: true})\<close>, and the first delivery.
\<close>

definition syncNow_start :: "sync_state \<Rightarrow> sync_state" where
  "syncNow_start s =
     (let pending = filter (\<lambda>r. \<not> synced r) (queue (store s)) in
      if length pending = 0 then s
      else s\<lparr>store := (store s)\<lparr>isSyncing := True\<rparr>,
             drains := drains s @
               [\<lparr>d_pending = pending, d_locals = (queue (store s), 0, 0), d_stage = Delivering\<rparr>],
             sent := sent s @ map payload (take 1 pending)\<rparr>)"

text \<open>
  A settled delivery runs the body of the loop for the record and either starts the
  next delivery or leaves the loop: \<open>set({queue: updated, isSyncing: false, ...})\<close> and
  the write of the queue, which is awaited.
\<close>

definition delivery_settled :: "nat \<Rightarrow> sync_outcome \<Rightarrow> string \<Rightarrow> sync_state \<Rightarrow> sync_state" where
  "delivery_settled k out ts s =
     (if k < length (drains s) then
        (let d = drains s ! k in
         case d_pending d of
           [] \<Rightarrow> s
         | r # rest \<Rightarrow>
             if d_stage d \<noteq> Delivering then s
             else let acc = sync_record out r (d_locals d) in
               if rest \<noteq> [] then
                 s\<lparr>drains := (drains s)[k := d\<lparr>d_pending := rest, d_locals := acc\<rparr>],
                   sent := sent s @ map payload (take 1 rest)\<rparr>
               else
                 s\<lparr>store := (store s)\<lparr>queue := fst acc, isSyncing := False, lastSyncAt := Some ts\<rparr>,
                   disk := persist_queue (disk s) (fst acc),
                   drains := (drains s)[k := d\<lparr>d_pending := [], d_locals := acc,
                                                d_stage := Persisting\<rparr>]\<rparr>)
      else s)"

text \<open>\<open>syncAll\<close> returns to \<open>syncNow\<close>, which compacts when something was synced.\<close>

definition queue_persisted :: "nat \<Rightarrow> sync_state \<Rightarrow> sync_state" where
  "queue_persisted k s =
     (if k < length (drains s) then
        (let d = drains s ! k in
         if d_stage d \<noteq> Persisting then s
         else let (s', st') = (if fst (snd (d_locals d)) > 0 then clearSynced (store s, disk s)
                               else (store s, disk s))
              in s\<lparr>store := s', disk := st', drains := (drains s)[k := d\<lparr>d_stage := Finished\<rparr>]\<rparr>)
      else s)"

fun sync_step :: "sync_state \<Rightarrow> sync_event \<Rightarrow> sync_state" where
  "sync_step s (NetInfoChanged isConnected) =
     (let wasOffline = \<not> isOnline s; s' = s\<lparr>isOnline := isConnected\<rparr> in
      if wasOffline \<and> isConnected \<and> pendingCount s > 0 then syncNow_start s' else s')"
| "sync_step s TimerFired =
     (if isOnline s \<and> pendingCount s > 0 then syncNow_start s else s)"
| "sync_step s SyncNowCalled = syncNow_start s"
| "sync_step s (DeliverySettled k out ts) = delivery_settled k out ts s"
| "sync_step s (QueuePersisted k) = queue_persisted k s"

definition sync_run :: "sync_state \<Rightarrow> sync_event list \<Rightarrow> sync_state" where
  "sync_run = foldl sync_step"

text \<open>The drain cycles that are under way.\<close>

definition running :: "sync_state \<Rightarrow> nat" where
  "running s = length (filter (\<lambda>d. d_stage d = Delivering) (drains s))"

definition one_pending :: OfflineState where
  "one_pending = \<lparr>queue = [sample_r1], isSyncing = False, lastSyncAt = None\<rparr>"

text \<open>
  A run with one pending record: the timer starts a drain, and before its delivery
  settles the connection drops and comes back.
\<close>

definition overlap_run :: sync_state where
  "overlap_run = sync_run (sync_init one_pending Map.empty)
     [TimerFired, NetInfoChanged False, NetInfoChanged True]"

chapter \<open>Properties\<close>

section \<open>What is persisted\<close>

lemma persist_queue_lookup:
  "persist_queue st q OFFLINE_QUEUE = JSON_stringify (queue_js q)"
  by (simp add: persist_queue_def secureStorage_setObject_def queue_js_def JSON_stringify_def)

section \<open>A drain is first-in first-out and isolates failures\<close>

lemma findIndex_update_map:
  "distinct (map record_id xs) \<Longrightarrow>
   (case findIndex (\<lambda>x. record_id x = k) xs of None \<Rightarrow> xs | Some i \<Rightarrow> xs[i := f (xs ! i)])
   = map (\<lambda>x. if record_id x = k then f x else x) xs"
proof (induction xs)
  case Nil
  then show ?case by simp
next
  case (Cons x xs)
  show ?case
  proof (cases "record_id x = k")
    case True
    with Cons.prems have "\<forall>y\<in>set xs. record_id y \<noteq> k" by (fastforce simp: image_iff)
    then have "map (\<lambda>x. if record_id x = k then f x else x) xs = xs"
      by (induction xs) auto
    with True show ?thesis by simp
  next
    case False
    from Cons have IH: "(case findIndex (\<lambda>x. record_id x = k) xs of None \<Rightarrow> xs
        | Some i \<Rightarrow> xs[i := f (xs ! i)]) = map (\<lambda>x. if record_id x = k then f x else x) xs"
      by simp
    show ?thesis using False IH
      by (cases "findIndex (\<lambda>x. record_id x = k) xs") auto
  qed
qed

lemma record_id_apply_outcome [simp]: "record_id (apply_outcome out r) = record_id r"
  by (cases out) auto

lemma sync_record_map:
  assumes "distinct (map record_id upd)"
  shows "sync_record out r (upd, a, b) =
    (map (\<lambda>x. if record_id x = record_id r then apply_outcome out x else x) upd,
     (if is_delivered out then a + 1 else a), (if is_delivered out then b else b + 1))"
proof (cases out)
  case Delivered
  then show ?thesis
    using findIndex_update_map [OF assms, where k = "record_id r" and f = "\<lambda>x. x\<lparr>synced := True\<rparr>"] by simp
next
  case (Rejected d)
  then show ?thesis
    using findIndex_update_map [OF assms, where k = "record_id r"
        and f = "\<lambda>x. x\<lparr>syncError := Some (error_text d)\<rparr>"]
    by simp
qed

lemma record_id_g_all [simp]: "record_id (g_all ps x) = record_id x"
  by (induction ps arbitrary: x) auto

lemma g_all_other:
  "record_id x \<notin> record_id ` set (map fst ps) \<Longrightarrow> g_all ps x = x"
  by (induction ps arbitrary: x) auto

lemma length_deliveries [simp]: "length (fst (deliveries net n rs)) = length rs"
proof (induction rs arbitrary: n)
  case Nil
  then show ?case by simp
next
  case (Cons r rs)
  obtain out n' where step: "net n (payload r) = (out, n')" by force
  obtain outs n'' where rest: "deliveries net n' rs = (outs, n'')" by force
  from Cons [of n'] rest have "length outs = length rs" by simp
  with step rest show ?case by simp
qed

lemma sync_loop_map:
  "distinct (map record_id upd) \<Longrightarrow>
   sync_loop net pend ((upd, a, b), n) =
     ((map (g_all (zip pend (fst (deliveries net n pend)))) upd,
       a + length (filter is_delivered (fst (deliveries net n pend))),
       b + length (filter (\<lambda>out. \<not> is_delivered out) (fst (deliveries net n pend)))),
      snd (deliveries net n pend))"
proof (induction pend arbitrary: upd a b n)
  case Nil
  then show ?case by simp
next
  case (Cons r pend)
  obtain out n' where step: "net n (payload r) = (out, n')" by force
  let ?upd = "map (\<lambda>x. if record_id x = record_id r then apply_outcome out x else x) upd"
  have ids: "map record_id ?upd = map record_id upd" by (induction upd) auto
  have d: "distinct (map record_id ?upd)" unfolding ids by (rule Cons.prems)
  show ?case
    using step Cons.IH [OF d] sync_record_map [OF Cons.prems, of out r a b]
    by (auto split: prod.splits simp: comp_def)
qed

lemma map_g_all_drain_spec:
  "distinct (map record_id q) \<Longrightarrow> length outs = length (filter (\<lambda>r. \<not> synced r) q) \<Longrightarrow>
   map (g_all (zip (filter (\<lambda>r. \<not> synced r) q) outs)) q = drain_spec q outs"
proof (induction q arbitrary: outs)
  case Nil
  then show ?case by simp
next
  case (Cons x q)
  show ?case
  proof (cases "synced x")
    case True
    have "record_id x \<notin> record_id ` set (map fst (zip (filter (\<lambda>r. \<not> synced r) q) outs))"
      using Cons.prems(1) by (auto dest!: set_zip_leftD)
    then have "g_all (zip (filter (\<lambda>r. \<not> synced r) q) outs) x = x"
      by (rule g_all_other)
    with True Cons show ?thesis by simp
  next
    case False
    with Cons.prems(2) obtain out outs' where o: "outs = out # outs'"
      by (cases outs) auto
    have nin: "record_id (apply_outcome out x) \<notin> record_id ` set (map fst (zip (filter (\<lambda>r. \<not> synced r) q) outs'))"
      using Cons.prems(1) by (auto dest!: set_zip_leftD)
    have hd: "g_all (zip (filter (\<lambda>r. \<not> synced r) q) outs') (apply_outcome out x) = apply_outcome out x"
      using nin by (rule g_all_other)
    have tl: "map (g_all ((x, out) # zip (filter (\<lambda>r. \<not> synced r) q) outs')) q
        = map (g_all (zip (filter (\<lambda>r. \<not> synced r) q) outs')) q"
      using Cons.prems(1) by (auto simp: image_iff)
    from Cons.IH [of outs'] Cons.prems o False
    have IH: "map (g_all (zip (filter (\<lambda>r. \<not> synced r) q) outs')) q = drain_spec q outs'"
      by simp
    have hd': "g_all ((x, out) # zip (filter (\<lambda>r. \<not> synced r) q) outs') x = apply_outcome out x"
      using hd by simp
    have "map (g_all (zip (filter (\<lambda>r. \<not> synced r) (x # q)) outs)) (x # q)
        = g_all ((x, out) # zip (filter (\<lambda>r. \<not> synced r) q) outs') x
          # map (g_all ((x, out) # zip (filter (\<lambda>r. \<not> synced r) q) outs')) q"
      using False o by (simp del: g_all.simps)
    also have "\<dots> = apply_outcome out x # drain_spec q outs'"
      by (simp only: hd' tl IH)
    also have "\<dots> = drain_spec (x # q) outs"
      using False o by simp
    finally show ?thesis .
  qed
qed

text \<open>
  Claim C6. One call of \<open>syncAll\<close> hands the backend the payload of every entry
  whose \<open>synced\<close> flag is \<open>false\<close>, in queue order, oldest first, and of no
  other entry: the backend ends in the state that these deliveries, one after the
  other, lead to. An entry whose delivery succeeds is marked synced; an entry whose
  delivery fails gets the error text and the pass goes on with the next entry; the
  entries that were synced already stay as they are. The call returns the number of
  deliveries that succeeded and the number that failed in this pass. The identifiers of
  the queued events are distinct, as the data model has them.
\<close>

theorem syncAll_fifo_isolated:
  fixes net :: "'n \<Rightarrow> jsval \<Rightarrow> sync_outcome \<times> 'n" and n :: 'n and s :: OfflineState
  assumes "distinct (map record_id (queue s))"
  defines "pending \<equiv> filter (\<lambda>r. \<not> synced r) (queue s)"
  defines "outs \<equiv> fst (deliveries net n pending)"
  shows "length outs = length pending
    \<and> syncAll net ts (s, st, n) =
        (if pending = [] then ((0, 0), s, st, n)
         else ((length (filter is_delivered outs), length (filter (\<lambda>out. \<not> is_delivered out) outs)),
               s\<lparr>queue := drain_spec (queue s) outs, isSyncing := False, lastSyncAt := Some ts\<rparr>,
               persist_queue st (drain_spec (queue s) outs),
               snd (deliveries net n pending)))"
proof -
  have len: "length outs = length pending"
    by (simp add: outs_def)
  have spec: "map (g_all (zip pending outs)) (queue s) = drain_spec (queue s) outs"
    unfolding pending_def using assms(1) len [unfolded pending_def]
    by (rule map_g_all_drain_spec)
  have loop: "sync_loop net pending ((queue s, 0, 0), n) =
      ((drain_spec (queue s) outs, length (filter is_delivered outs),
        length (filter (\<lambda>out. \<not> is_delivered out) outs)), snd (deliveries net n pending))"
    using sync_loop_map [OF assms(1), of net pending 0 0 n] spec by (simp add: outs_def)
  show ?thesis
    using len loop by (simp add: syncAll_def Let_def pending_def)
qed

theorem syncAll_fifo_isolated_witness:
  "distinct (map record_id (queue sample_state))
   \<and> fst (syncAll sample_net ''2023-11-14T22:20:00.000Z'' (sample_state, Map.empty, [])) = (1, 1)
   \<and> queue (fst (snd (syncAll sample_net ''2023-11-14T22:20:00.000Z'' (sample_state, Map.empty, []))))
       = [sample_r1\<lparr>syncError := Some ''Outside geofence''\<rparr>, sample_r2, sample_r3\<lparr>synced := True\<rparr>]
   \<and> snd (snd (snd (syncAll sample_net ''2023-11-14T22:20:00.000Z'' (sample_state, Map.empty, []))))
       = [payload sample_r1, payload sample_r3]"
proof -
  have d: "distinct (map record_id (queue sample_state))"
    by (simp add: sample_state_def sample_r1_def sample_r2_def sample_r3_def)
  show ?thesis
    using d syncAll_fifo_isolated [OF d, of sample_net "[]" "''2023-11-14T22:20:00.000Z''" Map.empty]
    by (simp add: sample_state_def sample_r1_def sample_r2_def sample_r3_def sample_net_def
        error_text_def)
qed

section \<open>Loading tolerates a missing or corrupt persisted queue\<close>



section \<open>The synced flag under operations run to completion\<close>

lemma later_refl [simp]: "later r r"
  by (simp add: later_def)

lemma later_trans: "later a b \<Longrightarrow> later b c \<Longrightarrow> later a c"
  by (auto simp: later_def)

lemma findIndex_less: "findIndex P xs = Some i \<Longrightarrow> i < length xs"
  by (induction xs arbitrary: i) (auto split: if_splits)

lemma list_update_later:
  "later x (upd ! i) \<Longrightarrow> list_all2 later (upd[i := x]) upd"
proof (cases "i < length upd")
  case True
  assume "later x (upd ! i)"
  with True show ?thesis
    by (simp add: list_all2_conv_all_nth nth_list_update)
next
  case False
  then have "length upd \<le> i" by simp
  then have "upd[i := x] = upd" by (rule list_update_beyond)
  then show ?thesis by (simp add: list_all2_conv_all_nth)
qed

lemma sync_record_later: "list_all2 later (fst (sync_record out r (upd, a, b))) upd"
proof (cases "findIndex (\<lambda>x. record_id x = record_id r) upd")
  case None
  then show ?thesis by (cases out) (auto intro: list_all2_refl)
next
  case (Some idx)
  have "later ((upd ! idx)\<lparr>synced := True\<rparr>) (upd ! idx)"
    and "later ((upd ! idx)\<lparr>syncError := e\<rparr>) (upd ! idx)" for e
    by (simp_all add: later_def event_key_def)
  then show ?thesis using Some by (cases out) (auto intro: list_update_later)
qed

lemma sync_record_flags:
  "map synced (fst (sync_record (Rejected detail) r (upd, a, b))) = map synced upd"
proof (cases "findIndex (\<lambda>x. record_id x = record_id r) upd")
  case None
  then show ?thesis by simp
next
  case (Some idx)
  then have "idx < length upd" by (rule findIndex_less)
  then show ?thesis using Some
    by (simp add: map_update list_update_same_conv)
qed

lemma sync_loop_later:
  "list_all2 later (fst (fst (sync_loop net pend ((upd, a, b), n)))) upd"
proof (induction pend arbitrary: upd a b n)
  case Nil
  then show ?case by (auto intro: list_all2_refl)
next
  case (Cons r pend)
  obtain out n' where step: "net n (payload r) = (out, n')" by force
  obtain upd' a' b' where rec: "sync_record out r (upd, a, b) = (upd', a', b')"
    by (cases "sync_record out r (upd, a, b)") auto
  have one: "list_all2 later upd' upd"
    using sync_record_later [of out r upd a b] rec by simp
  have rest: "list_all2 later (fst (fst (sync_loop net pend ((upd', a', b'), n')))) upd'"
    by (rule Cons.IH)
  have "list_all2 later (fst (fst (sync_loop net pend ((upd', a', b'), n')))) upd"
  proof (rule list_all2_trans [where ?P1.0 = later and ?P2.0 = later and ?P3.0 = later])
    show "later x z" if "later x y" "later y z" for x y z
      using that by (rule later_trans)
    show "list_all2 later (fst (fst (sync_loop net pend ((upd', a', b'), n')))) upd'"
      by (rule rest)
    show "list_all2 later upd' upd"
      by (rule one)
  qed
  then show ?case using step rec by simp
qed

lemma syncAll_later:
  "list_all2 later (queue (fst (snd (syncAll net ts (s, st, n))))) (queue s)"
proof (cases "filter (\<lambda>r. \<not> synced r) (queue s) = []")
  case True
  then show ?thesis by (auto simp: syncAll_def intro: list_all2_refl)
next
  case False
  obtain upd a b n' where loop:
    "sync_loop net (filter (\<lambda>r. \<not> synced r) (queue s)) ((queue s, 0, 0), n) = ((upd, a, b), n')"
    by (metis prod.exhaust)
  have "list_all2 later upd (queue s)"
    using sync_loop_later [of net "filter (\<lambda>r. \<not> synced r) (queue s)" "queue s" 0 0 n] loop
    by simp
  then show ?thesis using False loop by (simp add: syncAll_def Let_def)
qed

lemma list_all2_list_emb: "list_all2 P xs ys \<Longrightarrow> list_emb P xs ys"
  by (induction rule: list_all2_induct) auto

lemma filter_later_emb: "list_emb later (filter P q) q"
  by (induction q) auto

lemma clearSynced_queue:
  "queue (fst (clearSynced (s, st))) = filter (\<lambda>r. \<not> synced r) (queue s)"
  by (simp add: clearSynced_def Let_def)

lemma addToQueue_queue:
  "queue (fst (snd (addToQueue now rnd ts p (s, st)))) =
     (if length (queue s) \<ge> MAX_QUEUE_SIZE then queue s else queue s @ [new_record now rnd ts p])"
  by (simp add: addToQueue_def Let_def)

lemma apply_op_later_emb:
  "list_emb later (queue (fst (apply_op net (s, st, n) op))) (queue s @ enqueued [op])"
proof (cases op)
  case (AddToQueue now rnd ts p)
  have "list_emb later (queue s) (queue s @ [new_record now rnd ts p])"
    by (intro list_emb_prefix list_emb_refl) simp
  moreover have "list_emb later (queue s @ [new_record now rnd ts p]) (queue s @ [new_record now rnd ts p])"
    by (intro list_emb_refl) simp
  ultimately show ?thesis
    using AddToQueue addToQueue_queue [of now rnd ts p s st]
    by (auto split: prod.splits)
next
  case (SyncAll ts)
  then show ?thesis
    using list_all2_list_emb [OF syncAll_later [of net ts s st n]]
    by (simp add: prod.case_eq_if)
next
  case ClearSynced
  then show ?thesis
    using clearSynced_queue [of s st] filter_later_emb
    by (auto split: prod.splits)
qed

lemma enqueued_append: "enqueued (ops @ ops') = enqueued ops @ enqueued ops'"
  by (induction ops rule: enqueued.induct) auto

lemma run_ops_later_emb:
  "list_emb later (queue (fst (run_ops net x ops))) (queue (fst x) @ enqueued ops)"
proof (induction ops arbitrary: x)
  case Nil
  then show ?case by (auto simp: run_ops_def intro: list_emb_refl)
next
  case (Cons op ops)
  obtain s st n where x: "x = (s, st, n)" by (cases x) auto
  let ?y = "apply_op net (s, st, n) op"
  have one: "list_emb later (queue (fst ?y)) (queue s @ enqueued [op])"
    by (rule apply_op_later_emb)
  have rest: "list_emb later (queue (fst (run_ops net ?y ops))) (queue (fst ?y) @ enqueued ops)"
    by (rule Cons.IH)
  have "list_emb later (queue (fst ?y) @ enqueued ops) ((queue s @ enqueued [op]) @ enqueued ops)"
    by (intro list_emb_append_mono one list_emb_refl) simp
  with rest have "list_emb later (queue (fst (run_ops net ?y ops))) ((queue s @ enqueued [op]) @ enqueued ops)"
    by (rule list_emb_trans [rotated 1]) (rule later_trans)
  moreover have "(queue s @ enqueued [op]) @ enqueued ops = queue s @ enqueued (op # ops)"
    using enqueued_append [of "[op]" ops] by simp
  ultimately show ?case using x by (simp add: run_ops_def)
qed

lemma enqueued_unsynced: "list_all (\<lambda>r. \<not> synced r) (enqueued ops)"
  by (induction ops rule: enqueued.induct) (auto simp: new_record_def)

text \<open>
  Operations that run one after the other, each to completion, never take a flag back.
  Whatever sequence of \<open>addToQueue\<close>, \<open>syncAll\<close> and \<open>clearSynced\<close> runs from
  whatever state, the entries of the queue at the end are, in order, later states of
  entries of the queue at the start or of the records enqueued on the way (which start
  unsynced): the same event, with a flag that is \<open>true\<close> if it was \<open>true\<close>
  before. One drain keeps every entry at its place with this property. Recording a sync
  error leaves every flag as it is. Compaction changes no entry: its result is the
  entries whose flag is \<open>false\<close>, so what it removes is synced. Drains that overlap
  are not covered here; they are treated with the event loop below.
\<close>

lemma synced_monotonic:
  "list_emb later (queue (fst (run_ops net (s, st, n) ops))) (queue s @ enqueued ops)
   \<and> list_all (\<lambda>r. \<not> synced r) (enqueued ops)
   \<and> list_all2 later (queue (fst (snd (syncAll net ts (s, st, n))))) (queue s)
   \<and> map synced (fst (sync_record (Rejected detail) r (upd, a, b))) = map synced upd
   \<and> queue (fst (clearSynced (s, st))) = filter (\<lambda>r. \<not> synced r) (queue s)"
  using run_ops_later_emb [of net "(s, st, n)" ops] enqueued_unsynced [of ops]
    syncAll_later [of net ts s st n] sync_record_flags [of detail r upd a b]
    clearSynced_queue [of s st]
  by simp


section \<open>Enqueue is bounded and fails closed\<close>

lemma apply_op_bounded:
  "length (queue s) \<le> MAX_QUEUE_SIZE \<Longrightarrow>
   length (queue (fst (apply_op net (s, st, n) op))) \<le> MAX_QUEUE_SIZE"
proof (cases op)
  case (AddToQueue now rnd ts p)
  assume "length (queue s) \<le> MAX_QUEUE_SIZE"
  with AddToQueue show ?thesis
    using addToQueue_queue [of now rnd ts p s st] by (auto split: prod.splits)
next
  case (SyncAll ts)
  assume "length (queue s) \<le> MAX_QUEUE_SIZE"
  with SyncAll show ?thesis
    using list_all2_lengthD [OF syncAll_later [of net ts s st n]]
    by (simp add: prod.case_eq_if)
next
  case ClearSynced
  assume "length (queue s) \<le> MAX_QUEUE_SIZE"
  then have "length (filter (\<lambda>r. \<not> synced r) (queue s)) \<le> MAX_QUEUE_SIZE"
    by (rule le_trans [OF length_filter_le])
  then show ?thesis
    using ClearSynced clearSynced_queue [of s st] by (auto split: prod.splits)
qed

lemma run_ops_bounded:
  "length (queue (fst x)) \<le> MAX_QUEUE_SIZE \<Longrightarrow>
   length (queue (fst (run_ops net x ops))) \<le> MAX_QUEUE_SIZE"
proof (induction ops arbitrary: x)
  case Nil
  then show ?case by (simp add: run_ops_def)
next
  case (Cons op ops)
  obtain s st n where x: "x = (s, st, n)" by (cases x) auto
  with Cons.prems have "length (queue (fst (apply_op net (s, st, n) op))) \<le> MAX_QUEUE_SIZE"
    by (intro apply_op_bounded) simp
  then have "length (queue (fst (run_ops net (apply_op net (s, st, n) op) ops))) \<le> MAX_QUEUE_SIZE"
    by (rule Cons.IH)
  then show ?case using x by (simp add: run_ops_def)
qed

text \<open>
  Claim C3. For every state of the queue, \<open>addToQueue\<close> checks the length against
  \<open>MAX_QUEUE_SIZE\<close>, which is 50. With 50 entries or more it returns \<open>false\<close> and
  leaves the store and the storage as they were. Otherwise it returns \<open>true\<close>, the
  queue is the old one with exactly one record appended whose \<open>synced\<close> is
  \<open>false\<close>, and the storage holds the serialisation of that whole queue. A queue of at
  most 50 entries therefore has at most 50 after the call, and after any sequence of
  \<open>addToQueue\<close>, \<open>syncAll\<close> and \<open>clearSynced\<close>.
\<close>

theorem addToQueue_bounded:
  fixes s :: OfflineState and st :: storage and now rnd ts :: string and p :: jsval
    and net :: "'n \<Rightarrow> jsval \<Rightarrow> sync_outcome \<times> 'n" and n :: 'n
  defines "res \<equiv> addToQueue now rnd ts p (s, st)"
  shows "MAX_QUEUE_SIZE = 50
    \<and> (length (queue s) \<ge> MAX_QUEUE_SIZE \<longrightarrow> res = (False, s, st))
    \<and> (length (queue s) < MAX_QUEUE_SIZE \<longrightarrow>
         fst res = True
         \<and> queue (fst (snd res)) = queue s @ [new_record now rnd ts p]
         \<and> synced (new_record now rnd ts p) = False
         \<and> length (queue (fst (snd res))) = length (queue s) + 1
         \<and> isSyncing (fst (snd res)) = isSyncing s
         \<and> lastSyncAt (fst (snd res)) = lastSyncAt s
         \<and> snd (snd res) OFFLINE_QUEUE = JSON_stringify (queue_js (queue (fst (snd res))))
         \<and> (\<forall>k. k \<noteq> OFFLINE_QUEUE \<longrightarrow> snd (snd res) k = st k))
    \<and> (length (queue s) \<le> MAX_QUEUE_SIZE \<longrightarrow>
         length (queue (fst (snd res))) \<le> MAX_QUEUE_SIZE
         \<and> length (queue (fst (run_ops net (s, st, n) ops))) \<le> MAX_QUEUE_SIZE)"
proof -
  have full: "length (queue s) \<ge> MAX_QUEUE_SIZE \<Longrightarrow> res = (False, s, st)"
    by (simp add: res_def addToQueue_def)
  have room: "length (queue s) < MAX_QUEUE_SIZE \<Longrightarrow>
      res = (True, s\<lparr>queue := queue s @ [new_record now rnd ts p]\<rparr>,
             persist_queue st (queue s @ [new_record now rnd ts p]))"
    by (simp add: res_def addToQueue_def Let_def)
  have other: "\<And>q k. k \<noteq> OFFLINE_QUEUE \<Longrightarrow> persist_queue st q k = st k"
    by (simp add: persist_queue_def secureStorage_setObject_def split: option.splits)
  have bound: "length (queue (fst (snd res))) \<le> MAX_QUEUE_SIZE"
    if "length (queue s) \<le> MAX_QUEUE_SIZE"
  proof (cases "length (queue s) < MAX_QUEUE_SIZE")
    case True
    then show ?thesis using room by simp
  next
    case False
    then show ?thesis using full that by simp
  qed
  have seq: "length (queue (fst (run_ops net (s, st, n) ops))) \<le> MAX_QUEUE_SIZE"
    if "length (queue s) \<le> MAX_QUEUE_SIZE"
    using that by (intro run_ops_bounded) simp
  show ?thesis
    using full room bound other seq
    by (simp add: MAX_QUEUE_SIZE_def persist_queue_lookup new_record_def)
qed

theorem addToQueue_bounded_witness:
  "length (queue initial_state) < MAX_QUEUE_SIZE
   \<and> fst (addToQueue ''1700000000000'' ''k3x9q2a'' ''2023-11-14T22:13:20.000Z'' sample_payload
           (initial_state, Map.empty)) = True
   \<and> queue (fst (snd (addToQueue ''1700000000000'' ''k3x9q2a'' ''2023-11-14T22:13:20.000Z''
           sample_payload (initial_state, Map.empty)))) = [sample_record]
   \<and> MAX_QUEUE_SIZE \<le> length (queue (initial_state\<lparr>queue := replicate 50 sample_record\<rparr>))
   \<and> addToQueue ''1700000000001'' ''zzzzzzz'' ''2023-11-14T22:13:20.001Z'' sample_payload
         (initial_state\<lparr>queue := replicate 50 sample_record\<rparr>, Map.empty)
       = (False, initial_state\<lparr>queue := replicate 50 sample_record\<rparr>, Map.empty)"
proof -
  have room: "length (queue initial_state) < MAX_QUEUE_SIZE"
    by (simp add: initial_state_def MAX_QUEUE_SIZE_def)
  have e: "queue initial_state = []"
    by (simp add: initial_state_def)
  have full: "MAX_QUEUE_SIZE \<le> length (queue (initial_state\<lparr>queue := replicate 50 sample_record\<rparr>))"
    by (simp add: MAX_QUEUE_SIZE_def)
  note a = addToQueue_bounded [where s = initial_state and st = Map.empty
      and now = "''1700000000000''" and rnd = "''k3x9q2a''"
      and ts = "''2023-11-14T22:13:20.000Z''" and p = sample_payload
      and net = sample_net and n = "[]" and ops = "[]"]
  note b = addToQueue_bounded [where s = "initial_state\<lparr>queue := replicate 50 sample_record\<rparr>"
      and st = Map.empty and now = "''1700000000001''" and rnd = "''zzzzzzz''"
      and ts = "''2023-11-14T22:13:20.001Z''" and p = sample_payload
      and net = sample_net and n = "[]" and ops = "[]"]
  from a room have a1: "fst (addToQueue ''1700000000000'' ''k3x9q2a'' ''2023-11-14T22:13:20.000Z'' sample_payload
           (initial_state, Map.empty)) = True" by blast
  from a room have a2: "queue (fst (snd (addToQueue ''1700000000000'' ''k3x9q2a'' ''2023-11-14T22:13:20.000Z''
           sample_payload (initial_state, Map.empty)))) = queue initial_state @ [sample_record]"
    unfolding sample_record_def by blast
  from b full have b1: "addToQueue ''1700000000001'' ''zzzzzzz'' ''2023-11-14T22:13:20.001Z'' sample_payload
         (initial_state\<lparr>queue := replicate 50 sample_record\<rparr>, Map.empty)
       = (False, initial_state\<lparr>queue := replicate 50 sample_record\<rparr>, Map.empty)" by blast
  show ?thesis
    using room a1 a2 full b1 unfolding e by (simp only: append_Nil simp_thms)
qed

section \<open>Queue operations keep the insertion order\<close>

lemma later_emb_keys:
  "list_emb later xs ys \<Longrightarrow> subseq (map event_key xs) (map event_key ys)"
  by (induction rule: list_emb.induct) (auto simp: later_def)

lemma later_all2_keys:
  "list_all2 later xs ys \<Longrightarrow> map event_key xs = map event_key ys"
  by (induction rule: list_all2_induct) (auto simp: later_def)

lemma addToQueue_persisted:
  "snd (snd (addToQueue now rnd ts p (s, st))) OFFLINE_QUEUE =
     (if length (queue s) \<ge> MAX_QUEUE_SIZE then st OFFLINE_QUEUE
      else JSON_stringify (queue_js (queue (fst (snd (addToQueue now rnd ts p (s, st)))))))"
  by (simp add: addToQueue_def Let_def persist_queue_lookup)

lemma syncAll_persisted:
  "fst (snd (snd (syncAll net ts (s, st, n)))) OFFLINE_QUEUE =
     (if filter (\<lambda>r. \<not> synced r) (queue s) = [] then st OFFLINE_QUEUE
      else JSON_stringify (queue_js (queue (fst (snd (syncAll net ts (s, st, n)))))))"
  by (simp add: syncAll_def Let_def persist_queue_lookup split: prod.splits)

lemma clearSynced_persisted:
  "snd (clearSynced (s, st)) OFFLINE_QUEUE =
     JSON_stringify (queue_js (queue (fst (clearSynced (s, st)))))"
  by (simp add: clearSynced_def Let_def persist_queue_lookup)

text \<open>
  Claim C10. Every queue operation keeps the entries that survive it in their order.
  After any sequence of operations the events of the queue are a subsequence of the
  events of the starting queue followed by the enqueued records in the order of their
  enqueueing. \<open>addToQueue\<close> appends the new record at the tail and leaves the
  entries before it as they are; a drain keeps the events of the queue position by
  position; compaction is a filter, so the survivors keep their relative order. What
  each operation persists is the serialisation of the queue it leaves in memory, which
  lists the records in queue order.
\<close>

theorem queue_order_preserved:
  "subseq (map event_key (queue (fst (run_ops net (s, st, n) ops))))
          (map event_key (queue s @ enqueued ops))
   \<and> queue (fst (snd (addToQueue now rnd ts p (s, st)))) =
       (if length (queue s) \<ge> MAX_QUEUE_SIZE then queue s else queue s @ [new_record now rnd ts p])
   \<and> map event_key (queue (fst (snd (syncAll net ts (s, st, n))))) = map event_key (queue s)
   \<and> queue (fst (clearSynced (s, st))) = filter (\<lambda>r. \<not> synced r) (queue s)
   \<and> subseq (queue (fst (clearSynced (s, st)))) (queue s)
   \<and> queue_js (queue s) = JArr (map record_js (queue s))
   \<and> snd (snd (addToQueue now rnd ts p (s, st))) OFFLINE_QUEUE =
       (if length (queue s) \<ge> MAX_QUEUE_SIZE then st OFFLINE_QUEUE
        else JSON_stringify (queue_js (queue (fst (snd (addToQueue now rnd ts p (s, st)))))))
   \<and> fst (snd (snd (syncAll net ts (s, st, n)))) OFFLINE_QUEUE =
       (if filter (\<lambda>r. \<not> synced r) (queue s) = [] then st OFFLINE_QUEUE
        else JSON_stringify (queue_js (queue (fst (snd (syncAll net ts (s, st, n)))))))
   \<and> snd (clearSynced (s, st)) OFFLINE_QUEUE =
       JSON_stringify (queue_js (queue (fst (clearSynced (s, st)))))"
proof -
  have seq: "subseq (map event_key (queue (fst (run_ops net (s, st, n) ops))))
      (map event_key (queue s @ enqueued ops))"
    using later_emb_keys [OF run_ops_later_emb [of net "(s, st, n)" ops]] by simp
  have drain: "map event_key (queue (fst (snd (syncAll net ts (s, st, n))))) = map event_key (queue s)"
    by (rule later_all2_keys [OF syncAll_later])
  have compact: "subseq (queue (fst (clearSynced (s, st)))) (queue s)"
    by (simp add: clearSynced_queue)
  show ?thesis
    by (intro conjI seq addToQueue_queue drain clearSynced_queue compact queue_js_def
        addToQueue_persisted syncAll_persisted clearSynced_persisted)
qed

section \<open>The integrity hash and the order of keys\<close>

lemma stringify_object_eq: "JSON_stringify (JObj ps) = Some (stringify_object ps)"
  by (simp add: JSON_stringify_def stringify_object_def)

lemma sort_keys_eq:
  fixes xs ys :: "string list"
  assumes "distinct xs" "distinct ys" "set xs = set ys"
  shows "sort xs = sort ys"
  by (rule sorted_distinct_set_unique) (simp_all add: assms)

text \<open>
  Claim C8, as amended. The integrity hash is computed over the JSON text of the payload
  with its top-level keys in sorted order. Two payloads with the same keys, each key
  holding the same value, have the same hash whatever the order in which the top-level
  keys were inserted. A value that is itself an object is serialised in its own key
  order, which the function does not sort: it counts as the same value only with the
  same key order.
\<close>

theorem integrity_hash_key_order:
  assumes "distinct (map fst p)" and "distinct (map fst q)" and "set p = set q"
  shows "generateIntegrityHash p = generateIntegrityHash q"
proof -
  have "set (map fst p) = set (map fst q)"
    using assms(3) by simp
  then have keys: "sort (Object_keys p) = sort (Object_keys q)"
    unfolding Object_keys_def using assms(1,2) by (intro sort_keys_eq)
  have "map_of p = map_of q"
    using assms by (simp add: map_of_inject_set)
  then have get: "js_get p = js_get q"
    by (intro ext) (simp add: js_get_def)
  have "ordered_keys p = ordered_keys q"
    by (simp add: ordered_keys_def keys get)
  then show ?thesis
    by (simp add: generateIntegrityHash_def)
qed

lemma hash_flat_a: "generateIntegrityHash flat_a = ''0000000016d92df0''"
  by code_simp

lemma hash_nested_a: "generateIntegrityHash nested_a = ''000000001dcddb29''"
  by code_simp

lemma hash_nested_b: "generateIntegrityHash nested_b = ''000000005e86b893''"
  by code_simp

theorem integrity_hash_key_order_witness:
  "distinct (map fst flat_a) \<and> distinct (map fst flat_b) \<and> set flat_a = set flat_b
   \<and> flat_a \<noteq> flat_b
   \<and> generateIntegrityHash flat_b = generateIntegrityHash flat_a
   \<and> generateIntegrityHash flat_a = ''0000000016d92df0''"
proof -
  have d: "distinct (map fst flat_a)" "distinct (map fst flat_b)"
    by (simp_all add: flat_a_def flat_b_def)
  have e: "set flat_a = set flat_b"
    by (auto simp: flat_a_def flat_b_def)
  have n: "flat_a \<noteq> flat_b"
    by (simp add: flat_a_def flat_b_def)
  show ?thesis
    using d e n integrity_hash_key_order [OF d(2) d(1) e [symmetric]] hash_flat_a by simp
qed

text \<open>
  The claim as stated also covers nested objects. It fails there: the two payloads
  below hold the same key/value pairs, the \<open>location\<close> objects differ in the order
  of their keys only, and the hashes differ.
\<close>

theorem integrity_hash_nested_counterexample:
  "nested_a = [(''shift_id'', JStr ''s1''), (''location'', JObj location_a)]
   \<and> nested_b = [(''shift_id'', JStr ''s1''), (''location'', JObj location_b)]
   \<and> distinct (map fst location_a) \<and> distinct (map fst location_b)
   \<and> set location_a = set location_b
   \<and> generateIntegrityHash nested_a \<noteq> generateIntegrityHash nested_b"
proof -
  have "set location_a = set location_b"
    by (auto simp: location_a_def location_b_def)
  moreover have "distinct (map fst location_a)" "distinct (map fst location_b)"
    by (simp_all add: location_a_def location_b_def)
  moreover have "generateIntegrityHash nested_a \<noteq> generateIntegrityHash nested_b"
    by (simp add: hash_nested_a hash_nested_b)
  ultimately show ?thesis
    by (simp add: nested_a_def nested_b_def)
qed

section \<open>The failure path of a refresh\<close>

lemma gw_run_Nil [simp]: "gw_run s [] = s"
  by (simp add: gw_run_def)

lemma gw_run_Cons [simp]: "gw_run s (e # es) = gw_run (gw_step s e) es"
  by (simp add: gw_run_def)

lemma gw_run_append [simp]: "gw_run s (es @ es') = gw_run (gw_run s es) es'"
  by (simp add: gw_run_def)

lemma park_run:
  "isRefreshing s \<Longrightarrow> set ws \<inter> retry s = {} \<Longrightarrow>
   gw_run s (park ws) = s\<lparr>failedQueue := failedQueue s @ ws\<rparr>"
proof (induction ws arbitrary: s)
  case Nil
  then show ?case by (simp add: park_def)
next
  case (Cons w ws)
  let ?s = "s\<lparr>failedQueue := failedQueue s @ [w]\<rparr>"
  have step: "gw_step s (ResponseFailed w unauthorized) = ?s"
    using Cons.prems by (simp add: unauthorized_def)
  have "gw_run ?s (park ws) = ?s\<lparr>failedQueue := failedQueue ?s @ ws\<rparr>"
    using Cons.prems by (intro Cons.IH) auto
  then show ?case using step by (simp add: park_def)
qed

text \<open>
  The failure path for the requests that are parked before the refresh has failed.
  Request \<open>c\<close> fails with 401 while no refresh is under way and starts one; the
  requests \<open>ws\<close>, and \<open>ws'\<close> while the exchange is pending, fail with 401 meanwhile
  and wait; no other event comes in before the handler is through. When the refresh
  token is absent from the storage, or the backend rejects the exchange with a response,
  then both tokens are gone from the storage, every one of these waiting requests and
  then \<open>c\<close> itself have been rejected with the refresh error, nothing has been
  replayed, and no refresh is under way. A request that fails with 401 while the handler
  awaits the two removals is not covered: see the runs below.
\<close>

lemma refresh_failure_invalidates_session:
  assumes "\<not> isRefreshing s" and "handlers s = []"
    and "c \<notin> retry s" and "c \<notin> set (ws @ ws')" and "set (ws @ ws') \<inter> retry s = {}"
  shows "(secureStorage_get (tokens s) REFRESH_TOKEN = None \<longrightarrow>
            session_invalidated s
              (gw_run s (ResponseFailed c unauthorized # park ws
                         @ [RefreshTokenRead c, AccessRemoved c, RefreshRemoved c]))
              c ws (PlainError ''No refresh token'') [])
       \<and> (\<forall>t status. secureStorage_get (tokens s) REFRESH_TOKEN = Some t \<and> t \<noteq> [] \<longrightarrow>
            session_invalidated s
              (gw_run s (ResponseFailed c unauthorized # park ws @ [RefreshTokenRead c] @ park ws'
                         @ [ExchangeSettled c (Inl (HttpError status)), AccessRemoved c,
                            RefreshRemoved c]))
              c (ws @ ws') (HttpError status) [RefreshPosted c t])"
proof -
  let ?s1 = "s\<lparr>retry := insert c (retry s), isRefreshing := True,
               handlers := [(c, AwaitGetRefresh)]\<rparr>"
  have first: "gw_step s (ResponseFailed c unauthorized) = ?s1"
    using assms by (simp add: unauthorized_def)
  have parked: "gw_run ?s1 (park ws) = ?s1\<lparr>failedQueue := failedQueue s @ ws\<rparr>"
    using assms by (subst park_run) auto
  have start: "gw_run s (ResponseFailed c unauthorized # park ws @ rest)
      = gw_run (?s1\<lparr>failedQueue := failedQueue s @ ws\<rparr>) rest" for rest
    by (simp only: gw_run_Cons gw_run_append first parked)
  have absent: "session_invalidated s
      (gw_run s (ResponseFailed c unauthorized # park ws
                 @ [RefreshTokenRead c, AccessRemoved c, RefreshRemoved c]))
      c ws (PlainError ''No refresh token'') []"
    if "secureStorage_get (tokens s) REFRESH_TOKEN = None"
    unfolding start using that
    by (simp add: session_invalidated_def catch_refresh_def processQueue_def
        set_pc_def drop_handler_def secureStorage_get_def secureStorage_remove_def
        ACCESS_TOKEN_def REFRESH_TOKEN_def)
  have rejected: "session_invalidated s
      (gw_run s (ResponseFailed c unauthorized # park ws @ [RefreshTokenRead c] @ park ws'
                 @ [ExchangeSettled c (Inl (HttpError status)), AccessRemoved c, RefreshRemoved c]))
      c (ws @ ws') (HttpError status) [RefreshPosted c t]"
    if t: "secureStorage_get (tokens s) REFRESH_TOKEN = Some t" "t \<noteq> []" for t status
  proof -
    let ?s2 = "?s1\<lparr>failedQueue := failedQueue s @ ws,
                  trace := trace s @ [RefreshPosted c t], handlers := [(c, AwaitExchange)]\<rparr>"
    have read: "gw_step (?s1\<lparr>failedQueue := failedQueue s @ ws\<rparr>) (RefreshTokenRead c) = ?s2"
      using t by (simp add: set_pc_def)
    have parked': "gw_run ?s2 (park ws') = ?s2\<lparr>failedQueue := failedQueue s @ ws @ ws'\<rparr>"
      using assms by (subst park_run) auto
    have middle: "gw_run (?s1\<lparr>failedQueue := failedQueue s @ ws\<rparr>)
        ([RefreshTokenRead c] @ park ws' @ rest)
        = gw_run (?s2\<lparr>failedQueue := failedQueue s @ ws @ ws'\<rparr>) rest" for rest
      by (simp only: gw_run_Cons gw_run_Nil gw_run_append read parked')
    show ?thesis
      unfolding start middle
      by (simp add: session_invalidated_def catch_refresh_def
          processQueue_def set_pc_def drop_handler_def secureStorage_get_def
          secureStorage_remove_def ACCESS_TOKEN_def REFRESH_TOKEN_def)
  qed
  show ?thesis using absent rejected by blast
qed


lemma refresh_failure_invalidates_session_example:
  "\<not> isRefreshing (gw_init sample_tokens)
   \<and> secureStorage_get (tokens (gw_init sample_tokens)) REFRESH_TOKEN = Some ''refresh-0''
   \<and> session_invalidated (gw_init sample_tokens)
        (gw_run (gw_init sample_tokens)
           (ResponseFailed 1 unauthorized # park [2] @ [RefreshTokenRead 1] @ park [3]
            @ [ExchangeSettled 1 (Inl (HttpError 401)), AccessRemoved 1, RefreshRemoved 1]))
        1 ([2] @ [3]) (HttpError 401) [RefreshPosted 1 ''refresh-0'']
   \<and> secureStorage_get (tokens (gw_init Map.empty)) REFRESH_TOKEN = None
   \<and> session_invalidated (gw_init Map.empty)
        (gw_run (gw_init Map.empty)
           (ResponseFailed 1 unauthorized # park [2]
            @ [RefreshTokenRead 1, AccessRemoved 1, RefreshRemoved 1]))
        1 [2] (PlainError ''No refresh token'') []"
proof -
  have idle: "\<not> isRefreshing (gw_init st)" "handlers (gw_init st) = []"
    "(1::nat) \<notin> retry (gw_init st)" "set ([2] @ [3]) \<inter> retry (gw_init st) = {}" for st
    by (simp_all add: gw_init_def)
  have fresh: "(1::nat) \<notin> set ([2] @ [3])"
    by simp
  have present: "secureStorage_get (tokens (gw_init sample_tokens)) REFRESH_TOKEN = Some ''refresh-0''"
    by (simp add: gw_init_def sample_tokens_def secureStorage_get_def REFRESH_TOKEN_def
        ACCESS_TOKEN_def)
  have absent: "secureStorage_get (tokens (gw_init Map.empty)) REFRESH_TOKEN = None"
    by (simp add: gw_init_def secureStorage_get_def)
  note a = refresh_failure_invalidates_session
    [OF idle(1) idle(2) idle(3) fresh idle(4), of sample_tokens]
  note b = refresh_failure_invalidates_session
    [OF idle(1) idle(2) idle(3) fresh idle(4), of Map.empty]
  from a present have "session_invalidated (gw_init sample_tokens)
        (gw_run (gw_init sample_tokens)
           (ResponseFailed 1 unauthorized # park [2] @ [RefreshTokenRead 1] @ park [3]
            @ [ExchangeSettled 1 (Inl (HttpError 401)), AccessRemoved 1, RefreshRemoved 1]))
        1 ([2] @ [3]) (HttpError 401) [RefreshPosted 1 ''refresh-0'']"
    by blast
  moreover from b absent have "session_invalidated (gw_init Map.empty)
        (gw_run (gw_init Map.empty)
           (ResponseFailed 1 unauthorized # park [2]
            @ [RefreshTokenRead 1, AccessRemoved 1, RefreshRemoved 1]))
        1 [2] (PlainError ''No refresh token'') []"
    by blast
  ultimately show ?thesis
    using idle(1) present absent by blast
qed

text \<open>Supporting facts about the single flight of the refresh.\<close>

lemma single_flight_step: "single_flight s \<Longrightarrow> single_flight (gw_step s ev)"
proof (cases ev)
  case (ResponseFailed c err)
  assume "single_flight s"
  with ResponseFailed show ?thesis by (auto simp: single_flight_def)
next
  case (RefreshTokenRead c)
  assume "single_flight s"
  with RefreshTokenRead show ?thesis
    by (auto simp: single_flight_def catch_refresh_def processQueue_def set_pc_def Let_def
        split: option.splits handler_pc.splits)
next
  case (ExchangeSettled c res)
  assume "single_flight s"
  with ExchangeSettled show ?thesis
    by (auto simp: single_flight_def catch_refresh_def processQueue_def set_pc_def Let_def
        split: option.splits handler_pc.splits sum.splits)
next
  case (AccessStored c)
  assume sf: "single_flight s"
  show ?thesis
  proof (cases "handlers s")
    case Nil
    with AccessStored show ?thesis using sf by (simp add: single_flight_def)
  next
    case (Cons h hs)
    with sf have "hs = []" by (simp add: single_flight_def)
    with Cons AccessStored sf show ?thesis
      by (cases h) (auto simp: single_flight_def processQueue_def drop_handler_def Let_def
          split: option.splits handler_pc.splits if_splits)
  qed
next
  case (AccessRemoved c)
  assume "single_flight s"
  with AccessRemoved show ?thesis
    by (auto simp: single_flight_def set_pc_def split: option.splits handler_pc.splits)
next
  case (RefreshRemoved c)
  assume sf: "single_flight s"
  show ?thesis
  proof (cases "handlers s")
    case Nil
    with RefreshRemoved show ?thesis using sf by (simp add: single_flight_def)
  next
    case (Cons h hs)
    with sf have "hs = []" by (simp add: single_flight_def)
    with Cons RefreshRemoved sf show ?thesis
      by (cases h) (auto simp: single_flight_def drop_handler_def
          split: option.splits handler_pc.splits if_splits)
  qed
qed

lemma single_flight_run: "single_flight s \<Longrightarrow> single_flight (gw_run s evs)"
  by (induction evs arbitrary: s) (auto intro: single_flight_step)

lemma never_two_outstanding: "outstanding (gw_run (gw_init st) evs) \<le> 1"
proof -
  have "single_flight (gw_init st)"
    by (simp add: single_flight_def gw_init_def)
  then have "single_flight (gw_run (gw_init st) evs)"
    by (rule single_flight_run)
  then have "length (handlers (gw_run (gw_init st) evs)) \<le> 1"
    by (simp add: single_flight_def)
  moreover have "outstanding s \<le> length (handlers s)" for s
    by (simp add: outstanding_def)
  ultimately show ?thesis
    using le_trans by blast
qed

lemma parked_while_refreshing:
  "isRefreshing s \<Longrightarrow> c \<notin> retry s \<Longrightarrow>
   gw_step s (ResponseFailed c unauthorized) = s\<lparr>failedQueue := failedQueue s @ [c]\<rparr>"
  by (simp add: unauthorized_def)

lemma retried_request_fails_for_good:
  "c \<in> retry s \<Longrightarrow>
   gw_step s (ResponseFailed c err) = s\<lparr>trace := trace s @ [RejectedWith c err]\<rparr>"
  by simp

section \<open>Runs of the gateway that leave the claimed behaviour\<close>

text \<open>
  Claim C1 says that a request which fails with 401 while a refresh is under way is
  parked, and that every parked request is resolved or rejected with the result of that
  one exchange. The run below breaks the second part. The exchange of request 1 is
  rejected; \<open>processQueue\<close> runs at once, and the handler then awaits the removal of
  the two tokens with \<open>isRefreshing\<close> still set. Request 2 fails with 401 in that
  window and is parked. When the handler ends it only resets the flag: request 2 is
  still on \<open>failedQueue\<close>, neither replayed nor rejected.
\<close>

theorem parked_after_failure_is_stranded:
  "isRefreshing (gw_run (gw_init sample_tokens)
       [ResponseFailed 1 unauthorized, RefreshTokenRead 1, ExchangeSettled 1 (Inl unauthorized)])
   \<and> failedQueue (gw_run (gw_init sample_tokens)
       [ResponseFailed 1 unauthorized, RefreshTokenRead 1, ExchangeSettled 1 (Inl unauthorized),
        ResponseFailed 2 unauthorized]) = [2]
   \<and> isRefreshing stranded_run = False
   \<and> handlers stranded_run = []
   \<and> failedQueue stranded_run = [2]
   \<and> trace stranded_run = [RefreshPosted 1 ''refresh-0'', RejectedWith 1 unauthorized]"
  unfolding stranded_run_def by code_simp

text \<open>
  Claim C5 says that when the refresh token is absent, or the backend rejects the
  exchange, both tokens are removed, every request waiting on that refresh is rejected,
  and the originating request fails with the refresh error and is not retried. The two
  runs below break the middle part, by the defect of the run above. In the first the
  refresh token is absent; in the second the backend rejects the exchange. In both the
  tokens are gone at the end and request 1 has been rejected with the refresh error and
  not replayed, but request 2, which was parked on that refresh while the handler
  awaited the removals, is still on \<open>failedQueue\<close> and has not been rejected: the
  session is not invalidated for it.
\<close>

theorem waiting_request_is_not_rejected:
  "secureStorage_get (tokens absent_token_run) ACCESS_TOKEN = None
   \<and> secureStorage_get (tokens absent_token_run) REFRESH_TOKEN = None
   \<and> trace absent_token_run = [RejectedWith 1 (PlainError ''No refresh token'')]
   \<and> failedQueue absent_token_run = [2]
   \<and> isRefreshing absent_token_run = False
   \<and> \<not> session_invalidated (gw_init access_only) absent_token_run 1 [2]
         (PlainError ''No refresh token'') []
   \<and> secureStorage_get (tokens stranded_run) ACCESS_TOKEN = None
   \<and> secureStorage_get (tokens stranded_run) REFRESH_TOKEN = None
   \<and> RejectedWith 2 unauthorized \<notin> set (trace stranded_run)
   \<and> \<not> session_invalidated (gw_init sample_tokens) stranded_run 1 [2]
         unauthorized [RefreshPosted 1 ''refresh-0'']"
  unfolding absent_token_run_def stranded_run_def by code_simp

text \<open>
  Claim C4 says that a request is replayed exactly once, also when it was parked during
  a refresh, and fails for good on a second 401. The run below breaks that for a parked
  request: request 2 is parked, replayed with the new token, fails with 401 again, and
  since only the request that runs the refresh gets the \<open>_retry\<close> flag, it starts a
  second refresh and is replayed a second time.
\<close>

theorem parked_request_replayed_twice:
  "trace twice_run =
     [RefreshPosted 1 ''refresh-0'', Replayed 2 ''access-1'', Replayed 1 ''access-1'',
      RefreshPosted 2 ''refresh-0'', Replayed 2 ''access-2'']
   \<and> 2 \<notin> retry (gw_run (gw_init sample_tokens)
        [ResponseFailed 1 unauthorized, ResponseFailed 2 unauthorized, RefreshTokenRead 1,
         ExchangeSettled 1 (Inr ''access-1''), AccessStored 1])
   \<and> isRefreshing twice_run = False
   \<and> failedQueue twice_run = []"
  unfolding twice_run_def by code_simp

section \<open>Drains can overlap\<close>

lemma running_append [simp]:
  "length (filter (\<lambda>d. d_stage d = Delivering) (ds @ [d])) =
     length (filter (\<lambda>d. d_stage d = Delivering) ds) + (if d_stage d = Delivering then 1 else 0)"
  by simp

lemma running_syncNow_start:
  "running (syncNow_start s) = (if pendingCount s = 0 then running s else running s + 1)"
  by (simp add: syncNow_start_def pendingCount_def running_def Let_def)

lemma pendingCount_isOnline [simp]: "pendingCount (s\<lparr>isOnline := b\<rparr>) = pendingCount s"
  by (simp add: pendingCount_def)

lemma running_isOnline [simp]: "running (s\<lparr>isOnline := b\<rparr>) = running s"
  by (simp add: running_def)

text \<open>
  No trigger looks at the drains under way. \<open>syncAll\<close> sets \<open>isSyncing\<close> and never
  reads it, and neither do the timer and the connectivity listener of the hook. Whenever
  the queue holds an unsynced event, a call of \<open>syncNow\<close> takes its own snapshot of
  the queue and starts delivering; it does nothing only when no event is pending. So
  does the timer when the device is online, and the listener when the connection comes
  back.
\<close>

lemma drain_starts_whenever_pending:
  "running (sync_step s SyncNowCalled) =
     (if pendingCount s = 0 then running s else running s + 1)
   \<and> running (sync_step s TimerFired) =
     (if isOnline s \<and> pendingCount s > 0 then running s + 1 else running s)
   \<and> running (sync_step s (NetInfoChanged isConnected)) =
     (if \<not> isOnline s \<and> isConnected \<and> pendingCount s > 0 then running s + 1 else running s)
   \<and> syncNow_start s =
     (if pendingCount s = 0 then s
      else s\<lparr>store := (store s)\<lparr>isSyncing := True\<rparr>,
             drains := drains s @
               [\<lparr>d_pending = filter (\<lambda>r. \<not> synced r) (queue (store s)),
                 d_locals = (queue (store s), 0, 0), d_stage = Delivering\<rparr>],
             sent := sent s @ map payload (take 1 (filter (\<lambda>r. \<not> synced r) (queue (store s))))\<rparr>)"
proof -
  have a: "running (sync_step s SyncNowCalled) =
      (if pendingCount s = 0 then running s else running s + 1)"
    by (simp add: running_syncNow_start)
  have b: "running (sync_step s TimerFired) =
      (if isOnline s \<and> pendingCount s > 0 then running s + 1 else running s)"
    by (simp add: running_syncNow_start)
  have c: "running (sync_step s (NetInfoChanged isConnected)) =
      (if \<not> isOnline s \<and> isConnected \<and> pendingCount s > 0 then running s + 1 else running s)"
    by (simp add: running_syncNow_start Let_def)
  have d: "syncNow_start s =
     (if pendingCount s = 0 then s
      else s\<lparr>store := (store s)\<lparr>isSyncing := True\<rparr>,
             drains := drains s @
               [\<lparr>d_pending = filter (\<lambda>r. \<not> synced r) (queue (store s)),
                 d_locals = (queue (store s), 0, 0), d_stage = Delivering\<rparr>],
             sent := sent s @ map payload (take 1 (filter (\<lambda>r. \<not> synced r) (queue (store s))))\<rparr>)"
    by (simp add: syncNow_start_def pendingCount_def Let_def)
  show ?thesis
    by (intro conjI a b c d)
qed

text \<open>
  Claim C2 says that a call of \<open>syncAll\<close> while a drain is running does nothing or
  waits, so that two drain cycles never run at the same time, whatever the order of the
  timer, the connectivity listener and the calls of \<open>syncNow\<close>. The run below breaks
  it. The timer starts a drain, and the connection drops and comes back before the
  delivery has settled: the listener starts a second drain at once. Two drains are
  under way, each with the pending record in its snapshot, and the payload has been
  sent twice.
\<close>

theorem drains_overlap:
  "running (sync_run (sync_init one_pending Map.empty) [TimerFired]) = 1
   \<and> running overlap_run = 2
   \<and> sent overlap_run = [payload sample_r1, payload sample_r1]
   \<and> map d_pending (drains overlap_run) = [[sample_r1], [sample_r1]]"
  unfolding overlap_run_def by code_simp

text \<open>
  Claim C7 says that the \<open>synced\<close> flag of a queued event goes from \<open>false\<close> to
  \<open>true\<close> at most once and never back, under any sequence of \<open>addToQueue\<close>,
  \<open>syncAll\<close> and \<open>clearSynced\<close>. The run below breaks it, by the defect of the run
  above: two calls of \<open>syncAll\<close> overlap. The first drain delivers the record and
  writes the queue with the flag \<open>true\<close>. The delivery of the second drain then
  fails, and the drain writes back its own snapshot with the error recorded: the queue
  holds the same event, same identifier, with the flag \<open>false\<close> again. Nothing was
  compacted in between.
\<close>

theorem synced_flag_goes_back_when_drains_overlap:
  "map record_id (queue (store overlap_run)) = [record_id sample_r1]
   \<and> map synced (queue (store overlap_run)) = [False]
   \<and> map record_id (queue (store (sync_run overlap_run [DeliverySettled 0 Delivered ''t1''])))
       = [record_id sample_r1]
   \<and> map synced (queue (store (sync_run overlap_run [DeliverySettled 0 Delivered ''t1''])))
       = [True]
   \<and> map record_id (queue (store (sync_run overlap_run
         [DeliverySettled 0 Delivered ''t1'', DeliverySettled 1 (Rejected None) ''t2''])))
       = [record_id sample_r1]
   \<and> map synced (queue (store (sync_run overlap_run
         [DeliverySettled 0 Delivered ''t1'', DeliverySettled 1 (Rejected None) ''t2''])))
       = [False]
   \<and> queue (store (sync_run overlap_run
         [DeliverySettled 0 Delivered ''t1'', DeliverySettled 1 (Rejected None) ''t2'']))
       = [sample_r1\<lparr>syncError := Some ''Sync failed''\<rparr>]"
  unfolding overlap_run_def by code_simp

text \<open>
  With the compaction of \<open>syncNow\<close> in between: the first drain delivers the record,
  marks it synced and compacts it away; the second one, whose delivery fails, then
  writes its own snapshot back, and the record is in the queue again, unsynced.
\<close>

lemma overlapping_drains_undo_a_sync:
  "queue (store (sync_run overlap_run [DeliverySettled 0 Delivered ''t1''])) = [sample_r1\<lparr>synced := True\<rparr>]
   \<and> queue (store (sync_run overlap_run [DeliverySettled 0 Delivered ''t1'', QueuePersisted 0])) = []
   \<and> queue (store (sync_run overlap_run
        [DeliverySettled 0 Delivered ''t1'', QueuePersisted 0,
         DeliverySettled 1 (Rejected None) ''t2'']))
      = [sample_r1\<lparr>syncError := Some ''Sync failed''\<rparr>]"
  unfolding overlap_run_def by code_simp

text \<open>
  A drain that runs alone, from the call of \<open>syncNow\<close> to the end of its loop, leaves
  the store and the storage that \<open>syncAll\<close> as one operation leaves.
\<close>

lemma sync_run_Nil [simp]: "sync_run s [] = s"
  by (simp add: sync_run_def)

lemma sync_run_Cons [simp]: "sync_run s (e # es) = sync_run (sync_step s e) es"
  by (simp add: sync_run_def)

lemma sync_loop_fold:
  "sync_loop net pend (acc, n) =
     (foldl (\<lambda>a (out, r). sync_record out r a) acc (zip (fst (deliveries net n pend)) pend),
      snd (deliveries net n pend))"
proof (induction pend arbitrary: acc n)
  case Nil
  then show ?case by simp
next
  case (Cons r pend)
  obtain out n' where step: "net n (payload r) = (out, n')" by force
  obtain outs n'' where rest: "deliveries net n' pend = (outs, n'')" by force
  show ?case
    using step rest Cons.IH [of "sync_record out r acc" n'] by simp
qed

lemma drain_loop_alone:
  assumes "k < length (drains s)"
    and "drains s ! k = \<lparr>d_pending = pend, d_locals = acc, d_stage = Delivering\<rparr>"
    and "pend \<noteq> []" and "length outs = length pend"
  shows "store (sync_run s (map (\<lambda>out. DeliverySettled k out ts) outs)) =
           (store s)\<lparr>queue := fst (foldl (\<lambda>a (out, r). sync_record out r a) acc (zip outs pend)),
                      isSyncing := False, lastSyncAt := Some ts\<rparr>
       \<and> disk (sync_run s (map (\<lambda>out. DeliverySettled k out ts) outs)) =
           persist_queue (disk s) (fst (foldl (\<lambda>a (out, r). sync_record out r a) acc (zip outs pend)))"
  using assms
proof (induction pend arbitrary: s acc outs)
  case Nil
  then show ?case by simp
next
  case (Cons r pend)
  from Cons.prems(4) obtain out outs' where outs: "outs = out # outs'" "length outs' = length pend"
    by (cases outs) auto
  show ?case
  proof (cases "pend = []")
    case True
    with outs have "outs' = []" by simp
    with True outs Cons.prems show ?thesis
      by (simp add: delivery_settled_def Let_def)
  next
    case False
    let ?s = "delivery_settled k out ts s"
    have s': "?s = s\<lparr>drains := (drains s)[k := \<lparr>d_pending = pend,
          d_locals = sync_record out r acc, d_stage = Delivering\<rparr>],
        sent := sent s @ map payload (take 1 pend)\<rparr>"
      using False Cons.prems by (simp add: delivery_settled_def Let_def)
    have k: "k < length (drains ?s)"
      and d: "drains ?s ! k = \<lparr>d_pending = pend, d_locals = sync_record out r acc,
          d_stage = Delivering\<rparr>"
      using Cons.prems(1) unfolding s' by simp_all
    have keep: "store ?s = store s" "disk ?s = disk s"
      unfolding s' by simp_all
    from Cons.IH [OF k d False outs(2)] show ?thesis
      by (simp add: outs keep)
  qed
qed

lemma drain_alone_is_syncAll:
  fixes net :: "'n \<Rightarrow> jsval \<Rightarrow> sync_outcome \<times> 'n" and n :: 'n and s :: sync_state
    and ts :: string
  assumes "filter (\<lambda>r. \<not> synced r) (queue (store s)) \<noteq> []"
  defines "outs \<equiv> fst (deliveries net n (filter (\<lambda>r. \<not> synced r) (queue (store s))))"
  defines "s' \<equiv> sync_run s (SyncNowCalled # map (\<lambda>out. DeliverySettled (length (drains s)) out ts) outs)"
  shows "store s' = fst (snd (syncAll net ts (store s, disk s, n)))
    \<and> disk s' = fst (snd (snd (syncAll net ts (store s, disk s, n))))"
proof -
  let ?pend = "filter (\<lambda>r. \<not> synced r) (queue (store s))"
  let ?s1 = "syncNow_start s"
  have k: "length (drains s) < length (drains ?s1)"
    and d: "drains ?s1 ! length (drains s) =
        \<lparr>d_pending = ?pend, d_locals = (queue (store s), 0, 0), d_stage = Delivering\<rparr>"
    and st: "store ?s1 = (store s)\<lparr>isSyncing := True\<rparr>" "disk ?s1 = disk s"
    using assms(1) by (simp_all add: syncNow_start_def Let_def)
  have len: "length outs = length ?pend"
    by (simp add: outs_def)
  note loop = drain_loop_alone [OF k d assms(1) len, of ts]
  have all: "syncAll net ts (store s, disk s, n) =
      (case sync_loop net ?pend ((queue (store s), 0, 0), n) of
         ((updated, a, b), n') \<Rightarrow>
           ((a, b), (store s)\<lparr>queue := updated, isSyncing := False, lastSyncAt := Some ts\<rparr>,
            persist_queue (disk s) updated, n'))"
    using assms(1) by (simp add: syncAll_def Let_def split: prod.splits)
  show ?thesis
    using loop
    by (simp add: s'_def all sync_loop_fold st outs_def split: prod.splits)
qed

end
